theory Spec2Isabelle
  imports Main "HOL-Library.Word"
begin

unbundle bit_operations_syntax

section \<open>Machine types\<close>

type_synonym u8 = "8 word"
type_synonym u32 = "32 word"
type_synonym u64 = "64 word"

section \<open>curve.h: most significant bit index\<close>

text \<open>
  The two overloads of \<open>log2\<close> in curve.h. The 64-bit one saturates the bits below the
  most significant one, isolates that bit by a subtraction and hashes it with a De Bruijn
  multiplication; the 32-bit one hashes the saturated value directly (no subtraction).
  Table reads are by \<open>!\<close>; the index is a 6-bit (5-bit) value, so it is always in range.
\<close>

definition PERFECT_HASH_TABLE_64 :: "u8 list" where
  "PERFECT_HASH_TABLE_64 =
    [ 0,  1,  2,  7,  3, 13,  8, 19,  4, 25, 14, 28,  9, 34, 20, 40,
      5, 17, 26, 38, 15, 46, 29, 48, 10, 31, 35, 54, 21, 50, 41, 57,
     63,  6, 12, 18, 24, 27, 33, 39, 16, 37, 45, 47, 30, 53, 49, 56,
     62, 11, 23, 32, 36, 44, 52, 55, 61, 22, 43, 51, 60, 42, 59, 58]"

definition DE_BRUIJN_SEQUENCE_64 :: u64 where
  "DE_BRUIJN_SEQUENCE_64 = 0x0218a392cd3d5dbf"

definition log2_64 :: "u64 \<Rightarrow> u8" where
  "log2_64 x0 =
    (let x1 = x0 OR drop_bit 1 x0;
         x2 = x1 OR drop_bit 2 x1;
         x3 = x2 OR drop_bit 4 x2;
         x4 = x3 OR drop_bit 8 x3;
         x5 = x4 OR drop_bit 16 x4;
         x6 = x5 OR drop_bit 32 x5;
         x7 = x6 - drop_bit 1 x6
     in PERFECT_HASH_TABLE_64 ! unat (drop_bit 58 (DE_BRUIJN_SEQUENCE_64 * x7)))"

definition PERFECT_HASH_TABLE_32 :: "u8 list" where
  "PERFECT_HASH_TABLE_32 =
    [0,  9,  1, 10, 13, 21,  2, 29, 11, 14, 16, 18, 22, 25, 3, 30,
     8, 12, 20, 28, 15, 17, 24,  7, 19, 27, 23,  6, 26,  5, 4, 31]"

definition DE_BRUIJN_SEQUENCE_32 :: u32 where
  "DE_BRUIJN_SEQUENCE_32 = 0x07c4acdd"

definition log2_32 :: "u32 \<Rightarrow> u8" where
  "log2_32 x0 =
    (let x1 = x0 OR drop_bit 1 x0;
         x2 = x1 OR drop_bit 2 x1;
         x3 = x2 OR drop_bit 4 x2;
         x4 = x3 OR drop_bit 8 x3;
         x5 = x4 OR drop_bit 16 x4
     in PERFECT_HASH_TABLE_32 ! unat (drop_bit 27 (DE_BRUIJN_SEQUENCE_32 * x5)))"

section \<open>curve.h: Morton order\<close>

text \<open>
  The portable (\<open>NO_SIMD\<close>) branches of \<open>mortonIndex\<close> and \<open>mortonIndexInverse\<close>.
  The widening of the arguments to 64 bits and the narrowing casts of the results are
  \<open>ucast\<close>.
\<close>

definition mortonIndex :: "u32 \<Rightarrow> u32 \<Rightarrow> u64" where
  "mortonIndex x y =
    (let b0 = (ucast y :: u64);
         a0 = (ucast x :: u64);
         b1 = (b0 OR push_bit 16 b0) AND 0x0000ffff0000ffff;
         a1 = (a0 OR push_bit 16 a0) AND 0x0000ffff0000ffff;
         b2 = (b1 OR push_bit 8 b1) AND 0x00ff00ff00ff00ff;
         a2 = (a1 OR push_bit 8 a1) AND 0x00ff00ff00ff00ff;
         b3 = (b2 OR push_bit 4 b2) AND 0x0f0f0f0f0f0f0f0f;
         a3 = (a2 OR push_bit 4 a2) AND 0x0f0f0f0f0f0f0f0f;
         b4 = (b3 OR push_bit 2 b3) AND 0x3333333333333333;
         a4 = (a3 OR push_bit 2 a3) AND 0x3333333333333333;
         b5 = (b4 OR push_bit 1 b4) AND 0x5555555555555555;
         a5 = (a4 OR push_bit 1 a4) AND 0x5555555555555555
     in a5 OR push_bit 1 b5)"

definition mortonIndexInverse :: "u64 \<Rightarrow> u32 \<times> u32" where
  "mortonIndexInverse z =
    (let x0 = z AND 0x5555555555555555;
         y0 = drop_bit 1 z AND 0x5555555555555555;
         x1 = (x0 OR drop_bit 1 x0) AND 0x3333333333333333;
         y1 = (y0 OR drop_bit 1 y0) AND 0x3333333333333333;
         x2 = (x1 OR drop_bit 2 x1) AND 0x0f0f0f0f0f0f0f0f;
         y2 = (y1 OR drop_bit 2 y1) AND 0x0f0f0f0f0f0f0f0f;
         x3 = (x2 OR drop_bit 4 x2) AND 0x00ff00ff00ff00ff;
         y3 = (y2 OR drop_bit 4 y2) AND 0x00ff00ff00ff00ff;
         x4 = (x3 OR drop_bit 8 x3) AND 0x0000ffff0000ffff;
         y4 = (y3 OR drop_bit 8 y3) AND 0x0000ffff0000ffff
     in (ucast (x4 OR drop_bit 16 x4), ucast (y4 OR drop_bit 16 y4)))"

section \<open>curve.h: Hilbert order\<close>

definition HILBERT_LUT_1 :: u64 where
  "HILBERT_LUT_1 = 0x8d3ec79a6b5021f4"

definition HILBERT_INVERSE_LUT_1 :: u64 where
  "HILBERT_INVERSE_LUT_1 = 0x1ceb689fa750d324"

definition HILBERT_LUT_3 :: "u8 list" where
  "HILBERT_LUT_3 =
    [
     0x40, 0xc3, 0x01, 0x02, 0x04, 0x45, 0x87, 0x46,
     0x8e, 0x8d, 0x4f, 0xcc, 0x08, 0x49, 0x8b, 0x4a,
     0xfa, 0x3b, 0xf9, 0xb8, 0x7c, 0xff, 0x3d, 0x3e,
     0xf6, 0x37, 0xf5, 0xb4, 0xb2, 0xb1, 0x73, 0xf0,
     0x10, 0x51, 0x93, 0x52, 0xde, 0x1f, 0xdd, 0x9c,
     0x54, 0xd7, 0x15, 0x16, 0x58, 0xdb, 0x19, 0x1a,
     0x20, 0x61, 0xa3, 0x62, 0xee, 0x2f, 0xed, 0xac,
     0x64, 0xe7, 0x25, 0x26, 0x68, 0xeb, 0x29, 0x2a,
     0x00, 0x41, 0x83, 0x42, 0xce, 0x0f, 0xcd, 0x8c,
     0x44, 0xc7, 0x05, 0x06, 0x48, 0xcb, 0x09, 0x0a,
     0x50, 0xd3, 0x11, 0x12, 0x14, 0x55, 0x97, 0x56,
     0x9e, 0x9d, 0x5f, 0xdc, 0x18, 0x59, 0x9b, 0x5a,
     0xba, 0xb9, 0x7b, 0xf8, 0xb6, 0xb5, 0x77, 0xf4,
     0x3c, 0x7d, 0xbf, 0x7e, 0xf2, 0x33, 0xf1, 0xb0,
     0x60, 0xe3, 0x21, 0x22, 0x24, 0x65, 0xa7, 0x66,
     0xae, 0xad, 0x6f, 0xec, 0x28, 0x69, 0xab, 0x6a,
     0xaa, 0xa9, 0x6b, 0xe8, 0xa6, 0xa5, 0x67, 0xe4,
     0x2c, 0x6d, 0xaf, 0x6e, 0xe2, 0x23, 0xe1, 0xa0,
     0x9a, 0x99, 0x5b, 0xd8, 0x96, 0x95, 0x57, 0xd4,
     0x1c, 0x5d, 0x9f, 0x5e, 0xd2, 0x13, 0xd1, 0x90,
     0x70, 0xf3, 0x31, 0x32, 0x34, 0x75, 0xb7, 0x76,
     0xbe, 0xbd, 0x7f, 0xfc, 0x38, 0x79, 0xbb, 0x7a,
     0xca, 0x0b, 0xc9, 0x88, 0x4c, 0xcf, 0x0d, 0x0e,
     0xc6, 0x07, 0xc5, 0x84, 0x82, 0x81, 0x43, 0xc0,
     0xea, 0x2b, 0xe9, 0xa8, 0x6c, 0xef, 0x2d, 0x2e,
     0xe6, 0x27, 0xe5, 0xa4, 0xa2, 0xa1, 0x63, 0xe0,
     0x30, 0x71, 0xb3, 0x72, 0xfe, 0x3f, 0xfd, 0xbc,
     0x74, 0xf7, 0x35, 0x36, 0x78, 0xfb, 0x39, 0x3a,
     0xda, 0x1b, 0xd9, 0x98, 0x5c, 0xdf, 0x1d, 0x1e,
     0xd6, 0x17, 0xd5, 0x94, 0x92, 0x91, 0x53, 0xd0,
     0x8a, 0x89, 0x4b, 0xc8, 0x86, 0x85, 0x47, 0xc4,
     0x0c, 0x4d, 0x8f, 0x4e, 0xc2, 0x03, 0xc1, 0x80]"

definition HILBERT_INVERSE_LUT_3 :: "u8 list" where
  "HILBERT_INVERSE_LUT_3 =
    [
     0x40, 0x02, 0x03, 0xc1, 0x04, 0x45, 0x47, 0x86,
     0x0c, 0x4d, 0x4f, 0x8e, 0xcb, 0x89, 0x88, 0x4a,
     0x20, 0x61, 0x63, 0xa2, 0x68, 0x2a, 0x2b, 0xe9,
     0x6c, 0x2e, 0x2f, 0xed, 0xa7, 0xe6, 0xe4, 0x25,
     0x30, 0x71, 0x73, 0xb2, 0x78, 0x3a, 0x3b, 0xf9,
     0x7c, 0x3e, 0x3f, 0xfd, 0xb7, 0xf6, 0xf4, 0x35,
     0xdf, 0x9d, 0x9c, 0x5e, 0x9b, 0xda, 0xd8, 0x19,
     0x93, 0xd2, 0xd0, 0x11, 0x54, 0x16, 0x17, 0xd5,
     0x00, 0x41, 0x43, 0x82, 0x48, 0x0a, 0x0b, 0xc9,
     0x4c, 0x0e, 0x0f, 0xcd, 0x87, 0xc6, 0xc4, 0x05,
     0x50, 0x12, 0x13, 0xd1, 0x14, 0x55, 0x57, 0x96,
     0x1c, 0x5d, 0x5f, 0x9e, 0xdb, 0x99, 0x98, 0x5a,
     0x70, 0x32, 0x33, 0xf1, 0x34, 0x75, 0x77, 0xb6,
     0x3c, 0x7d, 0x7f, 0xbe, 0xfb, 0xb9, 0xb8, 0x7a,
     0xaf, 0xee, 0xec, 0x2d, 0xe7, 0xa5, 0xa4, 0x66,
     0xe3, 0xa1, 0xa0, 0x62, 0x28, 0x69, 0x6b, 0xaa,
     0xff, 0xbd, 0xbc, 0x7e, 0xbb, 0xfa, 0xf8, 0x39,
     0xb3, 0xf2, 0xf0, 0x31, 0x74, 0x36, 0x37, 0xf5,
     0x9f, 0xde, 0xdc, 0x1d, 0xd7, 0x95, 0x94, 0x56,
     0xd3, 0x91, 0x90, 0x52, 0x18, 0x59, 0x5b, 0x9a,
     0x8f, 0xce, 0xcc, 0x0d, 0xc7, 0x85, 0x84, 0x46,
     0xc3, 0x81, 0x80, 0x42, 0x08, 0x49, 0x4b, 0x8a,
     0x60, 0x22, 0x23, 0xe1, 0x24, 0x65, 0x67, 0xa6,
     0x2c, 0x6d, 0x6f, 0xae, 0xeb, 0xa9, 0xa8, 0x6a,
     0xbf, 0xfe, 0xfc, 0x3d, 0xf7, 0xb5, 0xb4, 0x76,
     0xf3, 0xb1, 0xb0, 0x72, 0x38, 0x79, 0x7b, 0xba,
     0xef, 0xad, 0xac, 0x6e, 0xab, 0xea, 0xe8, 0x29,
     0xa3, 0xe2, 0xe0, 0x21, 0x64, 0x26, 0x27, 0xe5,
     0xcf, 0x8d, 0x8c, 0x4e, 0x8b, 0xca, 0xc8, 0x09,
     0x83, 0xc2, 0xc0, 0x01, 0x44, 0x06, 0x07, 0xc5,
     0x10, 0x51, 0x53, 0x92, 0x58, 0x1a, 0x1b, 0xd9,
     0x5c, 0x1e, 0x1f, 0xdd, 0x97, 0xd6, 0xd4, 0x15]"

text \<open>
  \<open>mortonToHilbert\<close> and \<open>hilbertToMorton\<close>. The parameter \<open>m\<close> is a C++ \<open>int\<close>,
  doubled on loop entry; the loop state is the remaining bit count \<open>m\<close>, the output
  accumulator and the transducer state \<open>i\<close> (bits 6 and 7 of the last table entry).
  The shift counts \<open>m\<close>, \<open>6 - m\<close> lie in 0..63 exactly when the argument is in 0..34;
  the documented domain is 0..32, and every theorem below assumes it.
\<close>

function mortonToHilbert_loop :: "u64 \<Rightarrow> int \<Rightarrow> u64 \<Rightarrow> u64 \<Rightarrow> int \<times> u64 \<times> u64" where
  "mortonToHilbert_loop z m h i =
    (if m \<ge> 6 then
       (let m' = m - 6;
            j = HILBERT_LUT_3 ! unat (i OR (drop_bit (nat m') z AND 0x3f));
            h' = push_bit 6 h OR ucast (j AND 0x3f);
            i' = ucast (j AND 0xc0)
        in mortonToHilbert_loop z m' h' i')
     else (m, h, i))"
  by pat_completeness auto
termination
  by (relation "measure (\<lambda>(z, m, h, i). nat m)") auto

definition mortonToHilbert :: "u64 \<Rightarrow> int \<Rightarrow> u64" where
  "mortonToHilbert z m0 =
    (case mortonToHilbert_loop z (2 * m0) 0 0 of (m, h, i) \<Rightarrow>
       if m \<noteq> 0 then
         (let r = 6 - m;
              j = HILBERT_LUT_3 ! unat (i OR (push_bit (nat r) z AND 0x3f))
          in push_bit (nat m) h OR ucast (drop_bit (nat r) (j AND 0x3f)))
       else h)"

function hilbertToMorton_loop :: "u64 \<Rightarrow> int \<Rightarrow> u64 \<Rightarrow> u64 \<Rightarrow> int \<times> u64 \<times> u64" where
  "hilbertToMorton_loop h m z i =
    (if m \<ge> 6 then
       (let m' = m - 6;
            j = HILBERT_INVERSE_LUT_3 ! unat (i OR (drop_bit (nat m') h AND 0x3f));
            z' = push_bit 6 z OR ucast (j AND 0x3f);
            i' = ucast (j AND 0xc0)
        in hilbertToMorton_loop h m' z' i')
     else (m, z, i))"
  by pat_completeness auto
termination
  by (relation "measure (\<lambda>(h, m, z, i). nat m)") auto

definition hilbertToMorton :: "u64 \<Rightarrow> int \<Rightarrow> u64" where
  "hilbertToMorton h m0 =
    (case hilbertToMorton_loop h (2 * m0) 0 0 of (m, z, i) \<Rightarrow>
       if m \<noteq> 0 then
         (let r = 6 - m;
              j = HILBERT_INVERSE_LUT_3 ! unat (i OR (push_bit (nat r) h AND 0x3f))
          in push_bit (nat m) z OR ucast (drop_bit (nat r) (j AND 0x3f)))
       else z)"

definition hilbertIndex :: "u32 \<Rightarrow> u32 \<Rightarrow> int \<Rightarrow> u64" where
  "hilbertIndex x y m = mortonToHilbert (mortonIndex x y) m"

definition hilbertIndexInverse :: "u64 \<Rightarrow> int \<Rightarrow> u32 \<times> u32" where
  "hilbertIndexInverse h m = mortonIndexInverse (hilbertToMorton h m)"

section \<open>ConvexPolygon.h: the relate fallback and serialization\<close>

text \<open>
  A \<open>double\<close> is carried as its 64-bit IEEE-754 pattern: encoding and decoding copy
  coordinates and never compute with them.
\<close>

type_synonym double = u64

datatype UnitVector3d = UnitVector3d (coord_x: double) (coord_y: double) (coord_z: double)

record ConvexPolygon =
  vertices :: "UnitVector3d list"

definition TYPE_CODE :: u8 where
  "TYPE_CODE = 0x70"

text \<open>
  Modelled from the spec: the \<open>Relationship\<close> type and \<open>invert\<close> are declared in headers
  that are not among the sources. Section 3 of the specification gives the four values and
  what \<open>invert\<close> does to each.
\<close>

datatype Relationship = DISJOINT | INTERSECTS | CONTAINS | WITHIN

fun invert :: "Relationship \<Rightarrow> Relationship" where
  "invert DISJOINT = DISJOINT"
| "invert INTERSECTS = INTERSECTS"
| "invert CONTAINS = WITHIN"
| "invert WITHIN = CONTAINS"

text \<open>
  A \<open>Region\<close> of unknown concrete kind, as \<open>ConvexPolygon\<close> sees it: the only member the
  fallback calls is the region's own overload \<open>relate(ConvexPolygon const &)\<close>.
\<close>

datatype Region = Region (relate_ConvexPolygon: "ConvexPolygon \<Rightarrow> Relationship")

text \<open>\<open>ConvexPolygon::relate(Region const & r)\<close>: \<open>return invert(r.relate(*this));\<close>\<close>

definition relate_Region :: "ConvexPolygon \<Rightarrow> Region \<Rightarrow> Relationship" where
  "relate_Region this r = invert (relate_ConvexPolygon r this)"

text \<open>
  Modelled from the spec: \<open>ConvexPolygon::encode\<close> and \<open>ConvexPolygon::decode\<close> are only
  declared in the header; their bodies are not among the sources. Section 4.2 and
  section 6 of the specification give the layout: the type code, a 4-byte unsigned vertex
  count, then three 8-byte values per vertex, in one fixed byte order (least significant
  byte first here); \<open>decode\<close> checks that the buffer has at least 5 bytes, that the type
  code matches and that the count agrees with the length, and otherwise fails with a
  \<open>DecodeError\<close>. The count is the vertex count narrowed to 32 bits.
\<close>

datatype error = DecodeError

definition encodeU32 :: "u32 \<Rightarrow> u8 list" where
  "encodeU32 w = [ucast w, ucast (drop_bit 8 w), ucast (drop_bit 16 w), ucast (drop_bit 24 w)]"

definition decodeU32 :: "u8 list \<Rightarrow> u32" where
  "decodeU32 b =
     ucast (b ! 0) OR push_bit 8 (ucast (b ! 1)) OR push_bit 16 (ucast (b ! 2)) OR
     push_bit 24 (ucast (b ! 3))"

definition encodeDouble :: "double \<Rightarrow> u8 list" where
  "encodeDouble w =
     [ucast w, ucast (drop_bit 8 w), ucast (drop_bit 16 w), ucast (drop_bit 24 w),
      ucast (drop_bit 32 w), ucast (drop_bit 40 w), ucast (drop_bit 48 w), ucast (drop_bit 56 w)]"

definition decodeDouble :: "u8 list \<Rightarrow> double" where
  "decodeDouble b =
     ucast (b ! 0) OR push_bit 8 (ucast (b ! 1)) OR push_bit 16 (ucast (b ! 2)) OR
     push_bit 24 (ucast (b ! 3)) OR push_bit 32 (ucast (b ! 4)) OR push_bit 40 (ucast (b ! 5)) OR
     push_bit 48 (ucast (b ! 6)) OR push_bit 56 (ucast (b ! 7))"

definition encodeVertex :: "UnitVector3d \<Rightarrow> u8 list" where
  "encodeVertex v = encodeDouble (coord_x v) @ encodeDouble (coord_y v) @ encodeDouble (coord_z v)"

definition decodeVertex :: "u8 list \<Rightarrow> UnitVector3d" where
  "decodeVertex b =
     UnitVector3d (decodeDouble (take 8 b)) (decodeDouble (take 8 (drop 8 b)))
       (decodeDouble (take 8 (drop 16 b)))"

fun decodeVertices :: "nat \<Rightarrow> u8 list \<Rightarrow> UnitVector3d list" where
  "decodeVertices 0 b = []"
| "decodeVertices (Suc n) b = decodeVertex (take 24 b) # decodeVertices n (drop 24 b)"

definition encode :: "ConvexPolygon \<Rightarrow> u8 list" where
  "encode p =
     TYPE_CODE # encodeU32 (of_nat (length (vertices p))) @ concat (map encodeVertex (vertices p))"

definition decode :: "u8 list \<Rightarrow> error + ConvexPolygon" where
  "decode s =
     (if length s < 5 then Inl DecodeError
      else if s ! 0 \<noteq> TYPE_CODE then Inl DecodeError
      else
        (let n = unat (decodeU32 (take 4 (drop 1 s)))
         in if length s \<noteq> 5 + 24 * n then Inl DecodeError
            else Inr \<lparr>vertices = decodeVertices n (drop 5 s)\<rparr>))"

section \<open>curve.h: the reference implementation in the file comment\<close>

text \<open>
  The header comment of curve.h gives the Hilbert index computation before unrolling: one
  2-bit pair of the Morton index per iteration, through the 16 nibbles of
  \<open>HILBERT_LUT_1\<close>. It is the second definition that \<open>mortonToHilbert\<close> is compared
  with. The loop counter is an unsigned 32-bit value that is always even (it starts at
  \<open>2 * m\<close> and decreases by 2), so it is a \<open>nat\<close> here.
\<close>

function hilbertIndex_ref_loop :: "u64 \<Rightarrow> nat \<Rightarrow> u64 \<Rightarrow> u64 \<Rightarrow> u64" where
  "hilbertIndex_ref_loop z m h i =
    (if m \<noteq> 0 then
       (let m' = m - 2;
            i1 = (i AND 0xc) OR (drop_bit m' z AND 3);
            i2 = drop_bit (unat (i1 * 4)) HILBERT_LUT_1;
            h' = push_bit 2 h OR (i2 AND 3)
        in hilbertIndex_ref_loop z m' h' i2)
     else h)"
  by pat_completeness auto
termination
  by (relation "measure (\<lambda>(z, m, h, i). m)") auto

definition hilbertIndex_ref :: "u32 \<Rightarrow> u32 \<Rightarrow> nat \<Rightarrow> u64" where
  "hilbertIndex_ref x y m = hilbertIndex_ref_loop (mortonIndex x y) (2 * m) 0 0"


section \<open>Auxiliary definitions for the proofs\<close>

text \<open>
  One operand's share of \<open>mortonIndex\<close> (the five shift-or-mask stages applied to the
  widened argument) and of \<open>mortonIndexInverse\<close> (the four stages and the final
  narrowing applied to the masked input).
\<close>

definition spread_bits :: "u64 \<Rightarrow> u64" where
  "spread_bits a0 =
    (let a1 = (a0 OR push_bit 16 a0) AND 0x0000ffff0000ffff;
         a2 = (a1 OR push_bit 8 a1) AND 0x00ff00ff00ff00ff;
         a3 = (a2 OR push_bit 4 a2) AND 0x0f0f0f0f0f0f0f0f;
         a4 = (a3 OR push_bit 2 a3) AND 0x3333333333333333;
         a5 = (a4 OR push_bit 1 a4) AND 0x5555555555555555
     in a5)"

definition compact_bits :: "u64 \<Rightarrow> u32" where
  "compact_bits x0 =
    (let x1 = (x0 OR drop_bit 1 x0) AND 0x3333333333333333;
         x2 = (x1 OR drop_bit 2 x1) AND 0x0f0f0f0f0f0f0f0f;
         x3 = (x2 OR drop_bit 4 x2) AND 0x00ff00ff00ff00ff;
         x4 = (x3 OR drop_bit 8 x3) AND 0x0000ffff0000ffff
     in ucast (x4 OR drop_bit 16 x4))"

text \<open>
  Nibble \<open>4 * s + d\<close> of a packed 16-entry table: the entry for transducer state \<open>s\<close>
  and input digit \<open>d\<close>. Its low two bits are the output digit, its high two bits the
  next state. \<open>run t n s v\<close> feeds the \<open>n\<close> low base-4 digits of \<open>v\<close>, most
  significant first, through the transducer with step table \<open>t\<close> from state \<open>s\<close>, and
  returns the final state and the output digits as a number.
\<close>

definition nibble :: "u64 \<Rightarrow> nat \<Rightarrow> nat \<Rightarrow> nat" where
  "nibble L s d = (unat L div 16 ^ (4 * s + d)) mod 16"

fun run :: "(nat \<Rightarrow> nat \<Rightarrow> nat) \<Rightarrow> nat \<Rightarrow> nat \<Rightarrow> nat \<Rightarrow> nat \<times> nat" where
  "run t 0 s v = (s, 0)"
| "run t (Suc n) s v =
     (let e = t s ((v div 4 ^ n) mod 4);
          r = run t n (e div 4) v
      in (fst r, (e mod 4) * 4 ^ n + snd r))"

definition inverse_tables :: "(nat \<Rightarrow> nat \<Rightarrow> nat) \<Rightarrow> (nat \<Rightarrow> nat \<Rightarrow> nat) \<Rightarrow> bool" where
  "inverse_tables f g =
     (\<forall>s<4. \<forall>d<4. f s d < 16 \<and> g s (f s d mod 4) = 4 * (f s d div 4) + d)"


abbreviation (input) fwd_step :: "nat \<Rightarrow> nat \<Rightarrow> nat" where
  "fwd_step \<equiv> nibble HILBERT_LUT_1"

abbreviation (input) inv_step :: "nat \<Rightarrow> nat \<Rightarrow> nat" where
  "inv_step \<equiv> nibble HILBERT_INVERSE_LUT_1"

text \<open>
  \<open>mortonToHilbert\<close> and \<open>hilbertToMorton\<close> differ only in their table; \<open>lut3_loop\<close>
  and \<open>lut3_apply\<close> are their common shape with the table as a parameter. \<open>table3 T t\<close>
  says that the 256-entry table \<open>T\<close> is three steps of the step table \<open>t\<close>.
\<close>

function lut3_loop :: "u8 list \<Rightarrow> u64 \<Rightarrow> int \<Rightarrow> u64 \<Rightarrow> u64 \<Rightarrow> int \<times> u64 \<times> u64" where
  "lut3_loop T z m h i =
    (if m \<ge> 6 then
       (let m' = m - 6;
            j = T ! unat (i OR (drop_bit (nat m') z AND 0x3f));
            h' = push_bit 6 h OR ucast (j AND 0x3f);
            i' = ucast (j AND 0xc0)
        in lut3_loop T z m' h' i')
     else (m, h, i))"
  by pat_completeness auto
termination
  by (relation "measure (\<lambda>(T, z, m, h, i). nat m)") auto

definition lut3_apply :: "u8 list \<Rightarrow> u64 \<Rightarrow> int \<Rightarrow> u64" where
  "lut3_apply T z m0 =
    (case lut3_loop T z (2 * m0) 0 0 of (m, h, i) \<Rightarrow>
       if m \<noteq> 0 then
         (let r = 6 - m;
              j = T ! unat (i OR (push_bit (nat r) z AND 0x3f))
          in push_bit (nat m) h OR ucast (drop_bit (nat r) (j AND 0x3f)))
       else h)"

definition table3 :: "u8 list \<Rightarrow> (nat \<Rightarrow> nat \<Rightarrow> nat) \<Rightarrow> bool" where
  "table3 T t = (\<forall>s<4. \<forall>v<64.
     unat (T ! (64 * s + v)) = 64 * fst (run t 3 s v) + snd (run t 3 s v))"


declare lut3_loop.simps [simp del] mortonToHilbert_loop.simps [simp del]
  hilbertToMorton_loop.simps [simp del] hilbertIndex_ref_loop.simps [simp del]

text \<open>
  The coordinates of a Morton index with \<open>n\<close> digits: \<open>evens\<close> collects the low bit of
  each base-4 digit (the x coordinate), \<open>odds\<close> the high bit (the y coordinate).
  \<open>cell t n s h\<close> is the grid cell that the transducer assigns to index \<open>h\<close>. Two
  cells are adjacent when they agree in one coordinate and differ by one in the other.
  The order-\<open>n\<close> curve in state \<open>s\<close> starts in the corner \<open>entry_corner s\<close> and ends in
  the corner \<open>exit_corner s\<close> of its square.
\<close>

fun evens :: "nat \<Rightarrow> nat \<Rightarrow> nat" where
  "evens 0 z = 0"
| "evens (Suc n) z = (((z div 4 ^ n) mod 4) mod 2) * 2 ^ n + evens n z"

fun odds :: "nat \<Rightarrow> nat \<Rightarrow> nat" where
  "odds 0 z = 0"
| "odds (Suc n) z = (((z div 4 ^ n) mod 4) div 2) * 2 ^ n + odds n z"

definition cell :: "(nat \<Rightarrow> nat \<Rightarrow> nat) \<Rightarrow> nat \<Rightarrow> nat \<Rightarrow> nat \<Rightarrow> nat \<times> nat" where
  "cell t n s h = (evens n (snd (run t n s h)), odds n (snd (run t n s h)))"

definition adjacent :: "nat \<times> nat \<Rightarrow> nat \<times> nat \<Rightarrow> bool" where
  "adjacent p q =
     (fst p = fst q \<and> (snd p + 1 = snd q \<or> snd q + 1 = snd p) \<or>
      snd p = snd q \<and> (fst p + 1 = fst q \<or> fst q + 1 = fst p))"

definition entry_corner :: "nat \<Rightarrow> nat \<times> nat" where
  "entry_corner s = (if s < 2 then (0, 0) else (1, 1))"

definition exit_corner :: "nat \<Rightarrow> nat \<times> nat" where
  "exit_corner s = (if s = 0 \<or> s = 3 then (1, 0) else (0, 1))"


section \<open>Enumerating bit positions\<close>

lemma cases32:
  "(n::nat) < 32 \<Longrightarrow>
     n = 31 \<or> n = 30 \<or> n = 29 \<or> n = 28 \<or> n = 27 \<or> n = 26 \<or> n = 25 \<or>
     n = 24 \<or> n = 23 \<or> n = 22 \<or> n = 21 \<or> n = 20 \<or> n = 19 \<or>
     n = 18 \<or> n = 17 \<or> n = 16 \<or> n = 15 \<or> n = 14 \<or> n = 13 \<or>
     n = 12 \<or> n = 11 \<or> n = 10 \<or> n = 9 \<or> n = 8 \<or> n = 7 \<or> n = 6 \<or>
     n = 5 \<or> n = 4 \<or> n = 3 \<or> n = 2 \<or> n = 1 \<or> n = 0"
  by arith

lemma cases64:
  "(n::nat) < 64 \<Longrightarrow>
     n = 63 \<or> n = 62 \<or> n = 61 \<or> n = 60 \<or> n = 59 \<or> n = 58 \<or> n = 57 \<or>
     n = 56 \<or> n = 55 \<or> n = 54 \<or> n = 53 \<or> n = 52 \<or> n = 51 \<or>
     n = 50 \<or> n = 49 \<or> n = 48 \<or> n = 47 \<or> n = 46 \<or> n = 45 \<or>
     n = 44 \<or> n = 43 \<or> n = 42 \<or> n = 41 \<or> n = 40 \<or> n = 39 \<or>
     n = 38 \<or> n = 37 \<or> n = 36 \<or> n = 35 \<or> n = 34 \<or> n = 33 \<or>
     n = 32 \<or> n = 31 \<or> n = 30 \<or> n = 29 \<or> n = 28 \<or> n = 27 \<or>
     n = 26 \<or> n = 25 \<or> n = 24 \<or> n = 23 \<or> n = 22 \<or> n = 21 \<or>
     n = 20 \<or> n = 19 \<or> n = 18 \<or> n = 17 \<or> n = 16 \<or> n = 15 \<or>
     n = 14 \<or> n = 13 \<or> n = 12 \<or> n = 11 \<or> n = 10 \<or> n = 9 \<or> n = 8 \<or>
     n = 7 \<or> n = 6 \<or> n = 5 \<or> n = 4 \<or> n = 3 \<or> n = 2 \<or> n = 1 \<or>
     n = 0"
  by arith

lemma cases4: "(n::nat) < 4 \<Longrightarrow> n = 3 \<or> n = 2 \<or> n = 1 \<or> n = 0"
  by arith

lemma bit_u32_high: "32 \<le> n \<Longrightarrow> \<not> bit (x::u32) n"
  by (auto dest: bit_imp_le_length)

lemma bit_u64_high: "64 \<le> n \<Longrightarrow> \<not> bit (x::u64) n"
  by (auto dest: bit_imp_le_length)

section \<open>Most significant bit\<close>

lemma ex_less_double:
  "((\<exists>j < d. P (n + j)) \<or> (\<exists>j < d. P (d + n + j))) = (\<exists>j < 2 * d. P (n + j))"
  for d n :: nat
proof
  assume "(\<exists>j < d. P (n + j)) \<or> (\<exists>j < d. P (d + n + j))"
  then show "\<exists>j < 2 * d. P (n + j)"
  proof
    assume "\<exists>j < d. P (n + j)"
    then obtain j where "j < d" "P (n + j)" by blast
    then show ?thesis by (intro exI [of _ j]) simp
  next
    assume "\<exists>j < d. P (d + n + j)"
    then obtain j where "j < d" "P (d + n + j)" by blast
    then show ?thesis by (intro exI [of _ "d + j"]) (simp add: ac_simps)
  qed
next
  assume "\<exists>j < 2 * d. P (n + j)"
  then obtain j where j: "j < 2 * d" "P (n + j)" by blast
  show "(\<exists>j < d. P (n + j)) \<or> (\<exists>j < d. P (d + n + j))"
  proof (cases "j < d")
    case True
    with j show ?thesis by blast
  next
    case False
    with j have "j - d < d" "P (d + n + (j - d))" by (simp_all add: ac_simps)
    then show ?thesis by blast
  qed
qed

lemma saturate_step:
  fixes a x :: "'a::len word"
  assumes "\<And>n. bit a n = (\<exists>j < d. bit x (n + j))"
  shows "bit (a OR drop_bit d a) n = (\<exists>j < 2 * d. bit x (n + j))"
  by (simp add: bit_or_iff bit_drop_bit_eq assms ex_less_double)

lemma msb_exists:
  fixes x :: "'a::len word"
  assumes "x \<noteq> 0"
  shows "\<exists>k<LENGTH('a). bit x k \<and> (\<forall>j>k. \<not> bit x j)"
proof -
  let ?S = "{n. bit x n}"
  have fin: "finite ?S"
    by (rule finite_subset [of _ "{..<LENGTH('a)}"]) (auto dest: bit_imp_le_length)
  have ne: "?S \<noteq> {}"
    using assms by (auto simp add: bit_eq_iff)
  have "Max ?S \<in> ?S" using fin ne by (rule Max_in)
  then have top: "bit x (Max ?S)" by simp
  have above: "\<not> bit x j" if "Max ?S < j" for j
  proof
    assume "bit x j"
    then have "j \<le> Max ?S" using fin by (intro Max_ge) simp_all
    with that show False by simp
  qed
  have "Max ?S < LENGTH('a)" using top by (rule bit_imp_le_length)
  with top above show ?thesis by blast
qed

lemma saturated_is_mask:
  fixes a x :: "'a::len word"
  assumes sat: "\<And>n. bit a n = (\<exists>j<LENGTH('a). bit x (n + j))"
    and k: "k < LENGTH('a)" "bit x k" "\<And>j. k < j \<Longrightarrow> \<not> bit x j"
  shows "a = mask (Suc k)"
proof (rule bit_eqI)
  fix n
  assume "possible_bit TYPE('a word) n"
  have "(\<exists>j<LENGTH('a). bit x (n + j)) = (n \<le> k)"
  proof
    assume "\<exists>j<LENGTH('a). bit x (n + j)"
    then obtain j where "bit x (n + j)" by blast
    with k(3) [of "n + j"] show "n \<le> k" by (cases "k < n + j") auto
  next
    assume "n \<le> k"
    then have "k - n < LENGTH('a)" "bit x (n + (k - n))" using k by simp_all
    then show "\<exists>j<LENGTH('a). bit x (n + j)" by blast
  qed
  then show "bit a n = bit (mask (Suc k) :: 'a word) n"
    using k(1) by (auto simp add: sat bit_mask_iff)
qed

lemma mask_minus_half:
  "mask (Suc k) - drop_bit (Suc 0) (mask (Suc k) :: 'a::len word) = 2 ^ k" if "k < LENGTH('a)"
proof -
  have "drop_bit (Suc 0) (mask (Suc k) :: 'a word) = mask k"
    using that by (intro bit_eqI) (auto simp add: bit_drop_bit_eq bit_mask_iff)
  then show ?thesis
    by (simp add: mask_Suc_exp mask_eq_exp_minus_1)
qed

lemma hash64: "n < 64 \<Longrightarrow>
  PERFECT_HASH_TABLE_64 ! unat (drop_bit 58 (DE_BRUIJN_SEQUENCE_64 * 2 ^ n)) = of_nat n"
  by (drule cases64, elim disjE)
    (simp_all add: PERFECT_HASH_TABLE_64_def DE_BRUIJN_SEQUENCE_64_def)

lemma hash32: "n < 32 \<Longrightarrow>
  PERFECT_HASH_TABLE_32 ! unat (drop_bit 27 (DE_BRUIJN_SEQUENCE_32 * mask (Suc n))) = of_nat n"
  by (drule cases32, elim disjE)
    (simp_all add: PERFECT_HASH_TABLE_32_def DE_BRUIJN_SEQUENCE_32_def mask_eq_exp_minus_1)

lemma log2_64_msb:
  fixes x :: u64
  assumes "bit x k" "\<And>j. k < j \<Longrightarrow> \<not> bit x j"
  shows "log2_64 x = of_nat k"
proof -
  have k: "k < 64" using assms(1) by (auto dest: bit_imp_le_length)
  define x1 where "x1 = x OR drop_bit 1 x"
  define x2 where "x2 = x1 OR drop_bit 2 x1"
  define x3 where "x3 = x2 OR drop_bit 4 x2"
  define x4 where "x4 = x3 OR drop_bit 8 x3"
  define x5 where "x5 = x4 OR drop_bit 16 x4"
  define x6 where "x6 = x5 OR drop_bit 32 x5"
  have b0: "bit x n = (\<exists>j < 1. bit x (n + j))" for n by simp
  have b1: "bit x1 n = (\<exists>j < 2. bit x (n + j))" for n
    unfolding x1_def using saturate_step [of x 1 x n, OF b0] by simp
  have b2: "bit x2 n = (\<exists>j < 4. bit x (n + j))" for n
    unfolding x2_def using saturate_step [of x1 2 x n, OF b1] by simp
  have b3: "bit x3 n = (\<exists>j < 8. bit x (n + j))" for n
    unfolding x3_def using saturate_step [of x2 4 x n, OF b2] by simp
  have b4: "bit x4 n = (\<exists>j < 16. bit x (n + j))" for n
    unfolding x4_def using saturate_step [of x3 8 x n, OF b3] by simp
  have b5: "bit x5 n = (\<exists>j < 32. bit x (n + j))" for n
    unfolding x5_def using saturate_step [of x4 16 x n, OF b4] by simp
  have b6: "bit x6 n = (\<exists>j < LENGTH(64). bit x (n + j))" for n
    unfolding x6_def using saturate_step [of x5 32 x n, OF b5] by simp
  have "x6 = mask (Suc k)"
    using b6 _ assms by (rule saturated_is_mask) (simp add: k)
  then have "x6 - drop_bit 1 x6 = 2 ^ k"
    using mask_minus_half [of k, where ?'a = 64] k by simp
  moreover have "log2_64 x =
      PERFECT_HASH_TABLE_64 ! unat (drop_bit 58 (DE_BRUIJN_SEQUENCE_64 * (x6 - drop_bit 1 x6)))"
    unfolding log2_64_def Let_def x6_def x5_def x4_def x3_def x2_def x1_def ..
  ultimately show ?thesis
    using hash64 [OF k] by simp
qed

lemma log2_32_msb:
  fixes x :: u32
  assumes "bit x k" "\<And>j. k < j \<Longrightarrow> \<not> bit x j"
  shows "log2_32 x = of_nat k"
proof -
  have k: "k < 32" using assms(1) by (auto dest: bit_imp_le_length)
  define x1 where "x1 = x OR drop_bit 1 x"
  define x2 where "x2 = x1 OR drop_bit 2 x1"
  define x3 where "x3 = x2 OR drop_bit 4 x2"
  define x4 where "x4 = x3 OR drop_bit 8 x3"
  define x5 where "x5 = x4 OR drop_bit 16 x4"
  have b0: "bit x n = (\<exists>j < 1. bit x (n + j))" for n by simp
  have b1: "bit x1 n = (\<exists>j < 2. bit x (n + j))" for n
    unfolding x1_def using saturate_step [of x 1 x n, OF b0] by simp
  have b2: "bit x2 n = (\<exists>j < 4. bit x (n + j))" for n
    unfolding x2_def using saturate_step [of x1 2 x n, OF b1] by simp
  have b3: "bit x3 n = (\<exists>j < 8. bit x (n + j))" for n
    unfolding x3_def using saturate_step [of x2 4 x n, OF b2] by simp
  have b4: "bit x4 n = (\<exists>j < 16. bit x (n + j))" for n
    unfolding x4_def using saturate_step [of x3 8 x n, OF b3] by simp
  have b5: "bit x5 n = (\<exists>j < LENGTH(32). bit x (n + j))" for n
    unfolding x5_def using saturate_step [of x4 16 x n, OF b4] by simp
  have "x5 = mask (Suc k)"
    using b5 _ assms by (rule saturated_is_mask) (simp add: k)
  moreover have "log2_32 x =
      PERFECT_HASH_TABLE_32 ! unat (drop_bit 27 (DE_BRUIJN_SEQUENCE_32 * x5))"
    unfolding log2_32_def Let_def x5_def x4_def x3_def x2_def x1_def ..
  ultimately show ?thesis
    using hash32 [OF k] by simp
qed

lemma log2_zero: "log2_64 0 = 0" "log2_32 0 = 0"
  by (simp_all add: log2_64_def log2_32_def PERFECT_HASH_TABLE_64_def PERFECT_HASH_TABLE_32_def)

text \<open>
  C6. For a nonzero 64-bit \<open>x\<close> (32-bit \<open>y\<close>) the result of \<open>log2\<close> is the index of the
  highest set bit: that bit is set and no bit above it is. For zero the result is 0.
\<close>

theorem log2_most_significant_bit:
  fixes x :: u64 and y :: u32
  shows "(x \<noteq> 0 \<longrightarrow> bit x (unat (log2_64 x)) \<and> (\<forall>j. unat (log2_64 x) < j \<longrightarrow> \<not> bit x j))
       \<and> (y \<noteq> 0 \<longrightarrow> bit y (unat (log2_32 y)) \<and> (\<forall>j. unat (log2_32 y) < j \<longrightarrow> \<not> bit y j))
       \<and> log2_64 0 = 0 \<and> log2_32 0 = 0"
proof -
  have A: "bit x (unat (log2_64 x)) \<and> (\<forall>j. unat (log2_64 x) < j \<longrightarrow> \<not> bit x j)"
    if "x \<noteq> 0"
  proof -
    from msb_exists [OF that] obtain k where k: "k < 64" "bit x k" "\<forall>j>k. \<not> bit x j"
      by auto
    from k(3) have "\<And>j. k < j \<Longrightarrow> \<not> bit x j" by blast
    with k(2) have "log2_64 x = of_nat k" by (rule log2_64_msb)
    then have "unat (log2_64 x) = k" using k(1) by (simp add: unat_of_nat)
    with k show ?thesis by simp
  qed
  have B: "bit y (unat (log2_32 y)) \<and> (\<forall>j. unat (log2_32 y) < j \<longrightarrow> \<not> bit y j)"
    if "y \<noteq> 0"
  proof -
    from msb_exists [OF that] obtain k where k: "k < 32" "bit y k" "\<forall>j>k. \<not> bit y j"
      by auto
    from k(3) have "\<And>j. k < j \<Longrightarrow> \<not> bit y j" by blast
    with k(2) have "log2_32 y = of_nat k" by (rule log2_32_msb)
    then have "unat (log2_32 y) = k" using k(1) by (simp add: unat_of_nat)
    with k show ?thesis by simp
  qed
  from A B log2_zero show ?thesis by blast
qed

theorem log2_most_significant_bit_witness:
  "(40 :: u64) \<noteq> 0 \<and> (40 :: u32) \<noteq> 0
   \<and> bit (40 :: u64) (unat (log2_64 40)) \<and> \<not> bit (40 :: u64) (Suc (unat (log2_64 40)))
   \<and> bit (40 :: u32) (unat (log2_32 40)) \<and> \<not> bit (40 :: u32) (Suc (unat (log2_32 40)))"
proof -
  have nz: "(40 :: u64) \<noteq> 0" "(40 :: u32) \<noteq> 0" by simp_all
  have up: "unat (log2_64 40) < Suc (unat (log2_64 40))"
    "unat (log2_32 40) < Suc (unat (log2_32 40))" by simp_all
  from nz up log2_most_significant_bit [of 40 40] show ?thesis by blast
qed

section \<open>Morton order\<close>

lemma mortonIndex_spread:
  "mortonIndex x y = spread_bits (ucast x) OR push_bit 1 (spread_bits (ucast y))"
  unfolding mortonIndex_def spread_bits_def Let_def ..

lemma mortonIndexInverse_compact:
  "mortonIndexInverse z =
     (compact_bits (z AND 0x5555555555555555),
      compact_bits (drop_bit 1 z AND 0x5555555555555555))"
  unfolding mortonIndexInverse_def compact_bits_def Let_def ..

lemma bit_spread_stage:
  "bit ((a OR push_bit k a) AND M) n = ((bit a n \<or> (k \<le> n \<and> bit a (n - k))) \<and> bit M n)"
  for a M :: u64
  by (auto simp add: bit_and_iff bit_or_iff bit_push_bit_iff dest: bit_imp_possible_bit)

lemma bit_compact_stage:
  "bit ((a OR drop_bit k a) AND M) n = ((bit a n \<or> bit a (k + n)) \<and> bit M n)"
  for a M :: u64
  by (auto simp add: bit_and_iff bit_or_iff bit_drop_bit_eq)

lemma bit_spread_bits_lt:
  assumes "n < 64"
  shows "bit (spread_bits (ucast (x::u32))) n = (even n \<and> bit x (n div 2))"
proof -
  define a0 :: u64 where "a0 = ucast x"
  define a1 where "a1 = (a0 OR push_bit 16 a0) AND 0x0000ffff0000ffff"
  define a2 where "a2 = (a1 OR push_bit 8 a1) AND 0x00ff00ff00ff00ff"
  define a3 where "a3 = (a2 OR push_bit 4 a2) AND 0x0f0f0f0f0f0f0f0f"
  define a4 where "a4 = (a3 OR push_bit 2 a3) AND 0x3333333333333333"
  define a5 where "a5 = (a4 OR push_bit 1 a4) AND 0x5555555555555555"
  have b0: "bit a0 k = (k < 32 \<and> bit x k)" for k
    unfolding a0_def by (auto simp add: bit_ucast_iff dest: bit_imp_le_length)
  have b1: "bit a1 k = ((bit a0 k \<or> (16 \<le> k \<and> bit a0 (k - 16))) \<and> bit (0x0000ffff0000ffff :: u64) k)" for k
    unfolding a1_def by (rule bit_spread_stage)
  have b2: "bit a2 k = ((bit a1 k \<or> (8 \<le> k \<and> bit a1 (k - 8))) \<and> bit (0x00ff00ff00ff00ff :: u64) k)" for k
    unfolding a2_def by (rule bit_spread_stage)
  have b3: "bit a3 k = ((bit a2 k \<or> (4 \<le> k \<and> bit a2 (k - 4))) \<and> bit (0x0f0f0f0f0f0f0f0f :: u64) k)" for k
    unfolding a3_def by (rule bit_spread_stage)
  have b4: "bit a4 k = ((bit a3 k \<or> (2 \<le> k \<and> bit a3 (k - 2))) \<and> bit (0x3333333333333333 :: u64) k)" for k
    unfolding a4_def by (rule bit_spread_stage)
  have b5: "bit a5 k = ((bit a4 k \<or> (1 \<le> k \<and> bit a4 (k - 1))) \<and> bit (0x5555555555555555 :: u64) k)" for k
    unfolding a5_def by (rule bit_spread_stage)
  have r: "spread_bits (ucast x) = a5"
    unfolding spread_bits_def Let_def a5_def a4_def a3_def a2_def a1_def a0_def ..
  have "bit a5 n = (even n \<and> bit x (n div 2))"
    using cases64 [OF assms]
    by (elim disjE) (simp_all add: b0 b1 b2 b3 b4 b5)
  then show ?thesis
    by (simp add: r)
qed

lemma bit_spread_bits:
  "bit (spread_bits (ucast (x::u32))) n = (even n \<and> bit x (n div 2))"
proof (cases "n < 64")
  case True
  then show ?thesis by (rule bit_spread_bits_lt)
next
  case False
  then have "\<not> bit (spread_bits (ucast x)) n" "\<not> bit x (n div 2)"
    by (simp_all add: bit_u64_high bit_u32_high)
  then show ?thesis by simp
qed

lemma bit_mortonIndex:
  "bit (mortonIndex x y) n = (if even n then bit x (n div 2) else bit y (n div 2))"
proof (cases "n < 64")
  case True
  have split: "bit (mortonIndex x y) n =
      (bit (spread_bits (ucast x)) n \<or> (1 \<le> n \<and> bit (spread_bits (ucast y)) (n - 1)))"
    unfolding mortonIndex_spread bit_or_iff bit_push_bit_iff using True by simp
  show ?thesis
  proof (cases "even n")
    case even: True
    then have "\<not> even (n - 1) \<or> n = 0" by (cases n) simp_all
    with even show ?thesis
      unfolding split bit_spread_bits by auto
  next
    case odd: False
    then have "even (n - 1)" "1 \<le> n" "(n - 1) div 2 = n div 2"
      by (auto elim!: oddE)
    with odd show ?thesis
      unfolding split bit_spread_bits by simp
  qed
next
  case False
  then show ?thesis by (simp add: bit_u64_high bit_u32_high)
qed

lemma bit_compact_bits_lt:
  assumes "n < 32"
  shows "bit (compact_bits (z AND 0x5555555555555555)) n = bit z (2 * n)"
proof -
  define x0 where "x0 = z AND 0x5555555555555555"
  define x1 where "x1 = (x0 OR drop_bit 1 x0) AND 0x3333333333333333"
  define x2 where "x2 = (x1 OR drop_bit 2 x1) AND 0x0f0f0f0f0f0f0f0f"
  define x3 where "x3 = (x2 OR drop_bit 4 x2) AND 0x00ff00ff00ff00ff"
  define x4 where "x4 = (x3 OR drop_bit 8 x3) AND 0x0000ffff0000ffff"
  have b0: "bit x0 k = (bit z k \<and> bit (0x5555555555555555 :: u64) k)" for k
    unfolding x0_def by (rule bit_and_iff)
  have b1: "bit x1 k = ((bit x0 k \<or> bit x0 (1 + k)) \<and> bit (0x3333333333333333 :: u64) k)" for k
    unfolding x1_def by (rule bit_compact_stage)
  have b2: "bit x2 k = ((bit x1 k \<or> bit x1 (2 + k)) \<and> bit (0x0f0f0f0f0f0f0f0f :: u64) k)" for k
    unfolding x2_def by (rule bit_compact_stage)
  have b3: "bit x3 k = ((bit x2 k \<or> bit x2 (4 + k)) \<and> bit (0x00ff00ff00ff00ff :: u64) k)" for k
    unfolding x3_def by (rule bit_compact_stage)
  have b4: "bit x4 k = ((bit x3 k \<or> bit x3 (8 + k)) \<and> bit (0x0000ffff0000ffff :: u64) k)" for k
    unfolding x4_def by (rule bit_compact_stage)
  have b5: "bit (x4 OR drop_bit 16 x4) k = (bit x4 k \<or> bit x4 (16 + k))" for k
    by (simp add: bit_or_iff bit_drop_bit_eq)
  have r: "compact_bits (z AND 0x5555555555555555) = ucast (x4 OR drop_bit 16 x4)"
    unfolding compact_bits_def Let_def x4_def x3_def x2_def x1_def x0_def ..
  have "bit (x4 OR drop_bit 16 x4) n = bit z (2 * n)"
    using cases32 [OF assms]
    by (elim disjE) (simp_all add: b0 b1 b2 b3 b4 b5 flip: numeral_2_eq_2)
  then show ?thesis
    using assms by (simp add: r bit_ucast_iff)
qed

lemma bit_compact_bits:
  "bit (compact_bits (z AND 0x5555555555555555)) n = (n < 32 \<and> bit z (2 * n))"
  using bit_compact_bits_lt [of n z] bit_u32_high [of n "compact_bits (z AND 0x5555555555555555)"]
  by (cases "n < 32") simp_all

lemma bit_mortonIndexInverse:
  "bit (fst (mortonIndexInverse z)) n = (n < 32 \<and> bit z (2 * n))"
  "bit (snd (mortonIndexInverse z)) n = (n < 32 \<and> bit z (2 * n + 1))"
  by (simp_all add: mortonIndexInverse_compact bit_compact_bits bit_drop_bit_eq)

lemma bit_u32_iff: "bit (x::u32) n = (n < 32 \<and> bit x n)"
  using bit_u32_high [of n x] by (cases "n < 32") auto

lemma mortonIndexInverse_mortonIndex: "mortonIndexInverse (mortonIndex x y) = (x, y)"
proof (rule prod_eqI)
  show "fst (mortonIndexInverse (mortonIndex x y)) = fst (x, y)"
    using bit_u32_iff [of x] by (intro bit_eqI) (simp add: bit_mortonIndexInverse bit_mortonIndex)
  show "snd (mortonIndexInverse (mortonIndex x y)) = snd (x, y)"
    using bit_u32_iff [of y] by (intro bit_eqI) (simp add: bit_mortonIndexInverse bit_mortonIndex)
qed

lemma mortonIndex_mortonIndexInverse:
  "mortonIndex (fst (mortonIndexInverse z)) (snd (mortonIndexInverse z)) = z"
proof (rule bit_eqI)
  fix n
  assume "possible_bit TYPE(u64) n"
  then have n: "n < 64" by simp
  show "bit (mortonIndex (fst (mortonIndexInverse z)) (snd (mortonIndexInverse z))) n = bit z n"
  proof (cases "even n")
    case True
    with n show ?thesis
      by (auto simp add: bit_mortonIndex bit_mortonIndexInverse elim!: evenE)
  next
    case False
    with n show ?thesis
      by (auto simp add: bit_mortonIndex bit_mortonIndexInverse elim!: oddE)
  qed
qed

text \<open>
  C2. Separating the even and odd bits of an interleaved pair gives the pair back, for
  all 32-bit \<open>x\<close> and \<open>y\<close>.
\<close>

theorem morton_round_trip: "mortonIndexInverse (mortonIndex x y) = (x, y)"
  by (rule mortonIndexInverse_mortonIndex)

text \<open>
  C7. Bit \<open>2k\<close> of \<open>mortonIndex x y\<close> is bit \<open>k\<close> of \<open>x\<close> and bit \<open>2k + 1\<close> is bit \<open>k\<close> of
  \<open>y\<close>, for every \<open>k\<close> (for \<open>k \<ge> 32\<close> all of these bits are clear).
\<close>

theorem mortonIndex_interleaves:
  "bit (mortonIndex x y) (2 * k) = bit x k \<and> bit (mortonIndex x y) (2 * k + 1) = bit y k"
  by (simp add: bit_mortonIndex)

text \<open>
  C8. The worked example, as the code computes it: the index of (5, 2) is
  25 = 0b011001 (bits 0 and 4 from x = 0b101, bit 3 from y = 0b010), and 25 separates
  into (5, 2) again.
\<close>

theorem morton_example_amended:
  "mortonIndex 5 2 = 25 \<and> mortonIndexInverse 25 = (5, 2)"
  by (simp add: mortonIndex_def mortonIndexInverse_def)

text \<open>
  The value 21 = 0b010101 has its set bits in the even positions only, so it is the index
  of (7, 0): neither half of the example as the specification words it holds.
\<close>

theorem morton_example_counterexample:
  "mortonIndex 5 2 \<noteq> 21 \<and> mortonIndexInverse 21 \<noteq> (5, 2)"
  by (simp add: mortonIndex_def mortonIndexInverse_def)

section \<open>The Hilbert transducer on digit sequences\<close>

lemma mod_split: "v mod (b * c) = ((v div b) mod c) * b + v mod b" for v b c :: nat
  by (simp add: mod_mult2_eq)

lemma mod_pow4_Suc: "v mod 4 ^ Suc n = ((v div 4 ^ n) mod 4) * 4 ^ n + v mod 4 ^ n" for v :: nat
  unfolding power_Suc2 by (rule mod_split)

lemma digit_shift: "r < 4 ^ n \<Longrightarrow> (d * 4 ^ n + r) div 4 ^ n = d" for d r :: nat
  by simp

lemma digit_mod: "((v mod 4 ^ Suc n) div 4 ^ n) mod 4 = (v div 4 ^ n) mod (4::nat)"
  unfolding mod_pow4_Suc by (simp add: digit_shift)

lemma digit_cong:
  assumes "v mod 4 ^ Suc n = w mod 4 ^ Suc n"
  shows "(v div 4 ^ n) mod 4 = (w div 4 ^ n) mod (4::nat)"
  using digit_mod [of v n] digit_mod [of w n] assms by simp

lemma mod_cong_lower:
  assumes "v mod 4 ^ Suc n = w mod 4 ^ Suc n"
  shows "v mod 4 ^ n = w mod (4::nat) ^ n"
proof -
  have "(v mod 4 ^ Suc n) mod 4 ^ n = v mod 4 ^ n" "(w mod 4 ^ Suc n) mod 4 ^ n = w mod 4 ^ n"
    by (simp_all add: mod_mod_cancel)
  with assms show ?thesis by simp
qed

lemma run_cong:
  "v mod 4 ^ n = w mod 4 ^ n \<Longrightarrow> run t n s v = run t n s w"
proof (induction n arbitrary: s)
  case 0
  show ?case by simp
next
  case (Suc n)
  have d: "(v div 4 ^ n) mod 4 = (w div 4 ^ n) mod 4"
    using Suc.prems by (rule digit_cong)
  have "v mod 4 ^ n = w mod 4 ^ n"
    using Suc.prems by (rule mod_cong_lower)
  then have "run t n s' v = run t n s' w" for s'
    by (rule Suc.IH)
  with d show ?case by simp
qed

lemma run_mod: "run t n s (v mod 4 ^ n) = run t n s v"
  by (rule run_cong) simp

lemma run_bound: "snd (run t n s v) < 4 ^ n"
proof (induction n arbitrary: s)
  case 0
  show ?case by simp
next
  case (Suc n)
  let ?e = "t s ((v div 4 ^ n) mod 4)"
  have "snd (run t n (?e div 4) v) < 4 ^ n" by (rule Suc.IH)
  moreover have "(?e mod 4) * 4 ^ n \<le> 3 * 4 ^ n" by simp
  ultimately have "(?e mod 4) * 4 ^ n + snd (run t n (?e div 4) v) < 4 * 4 ^ n"
    by linarith
  then show ?case by (simp add: Let_def)
qed

lemma run_state: "s < 4 \<Longrightarrow> (\<And>s d. t s d < 16) \<Longrightarrow> fst (run t n s v) < 4"
proof (induction n arbitrary: s)
  case 0
  then show ?case by simp
next
  case (Suc n)
  let ?e = "t s ((v div 4 ^ n) mod 4)"
  have "?e < 16" by (rule Suc.prems)
  then have "?e div 4 < 4" by simp
  then have "fst (run t n (?e div 4) v) < 4" using Suc.prems(2) by (rule Suc.IH)
  then show ?case by (simp add: Let_def)
qed

lemma run_append:
  "run t (a + b) s v =
     (let r1 = run t a s (v div 4 ^ b); r2 = run t b (fst r1) v
      in (fst r2, snd r1 * 4 ^ b + snd r2))"
proof (induction a arbitrary: s)
  case 0
  show ?case by (simp add: Let_def)
next
  case (Suc a)
  have "v div 4 ^ (a + b) = (v div 4 ^ b) div 4 ^ a"
    by (simp add: power_add mult.commute flip: div_mult2_eq)
  then have "(v div 4 ^ (a + b)) mod 4 = ((v div 4 ^ b) div 4 ^ a) mod 4"
    by simp
  then show ?case
    by (simp add: Let_def Suc.IH power_add algebra_simps)
qed

lemma run_inverse:
  assumes "inverse_tables f g"
  shows "s < 4 \<Longrightarrow> run g n s (snd (run f n s v)) = (fst (run f n s v), v mod 4 ^ n)"
proof (induction n arbitrary: s)
  case 0
  show ?case by simp
next
  case (Suc n)
  define d where "d = (v div 4 ^ n) mod 4"
  define e where "e = f s d"
  define r where "r = run f n (e div 4) v"
  have d: "d < 4" by (simp add: d_def)
  from assms Suc.prems d have e: "e < 16" and ge: "g s (e mod 4) = 4 * (e div 4) + d"
    unfolding inverse_tables_def e_def by blast+
  have out: "run f (Suc n) s v = (fst r, (e mod 4) * 4 ^ n + snd r)"
    by (simp add: Let_def r_def e_def d_def)
  have rb: "snd r < 4 ^ n" unfolding r_def by (rule run_bound)
  then have dig: "(((e mod 4) * 4 ^ n + snd r) div 4 ^ n) mod 4 = e mod 4"
    by simp
  have "run g n (e div 4) ((e mod 4) * 4 ^ n + snd r) = run g n (e div 4) (snd r)"
    by (rule run_cong) simp
  also have "\<dots> = (fst r, v mod 4 ^ n)"
    unfolding r_def using e by (intro Suc.IH) simp
  finally have rec: "run g n (e div 4) ((e mod 4) * 4 ^ n + snd r) = (fst r, v mod 4 ^ n)" .
  have split: "v mod 4 ^ Suc n = d * 4 ^ n + v mod 4 ^ n"
    unfolding d_def by (rule mod_pow4_Suc)
  have ns: "(4 * (e div 4) + d) div 4 = e div 4" "(4 * (e div 4) + d) mod 4 = d"
    using d by simp_all
  have "run g (Suc n) s ((e mod 4) * 4 ^ n + snd r) = (fst r, d * 4 ^ n + v mod 4 ^ n)"
    unfolding run.simps(2) Let_def dig ge ns rec by simp
  then show ?case
    unfolding out split by simp
qed

section \<open>The lookup tables\<close>

lemma nibble_fwd:
  "nibble HILBERT_LUT_1 0 0 = 4"
  "nibble HILBERT_LUT_1 0 (Suc 0) = 15"
  "nibble HILBERT_LUT_1 0 2 = (Suc 0)"
  "nibble HILBERT_LUT_1 0 3 = 2"
  "nibble HILBERT_LUT_1 (Suc 0) 0 = 0"
  "nibble HILBERT_LUT_1 (Suc 0) (Suc 0) = 5"
  "nibble HILBERT_LUT_1 (Suc 0) 2 = 11"
  "nibble HILBERT_LUT_1 (Suc 0) 3 = 6"
  "nibble HILBERT_LUT_1 2 0 = 10"
  "nibble HILBERT_LUT_1 2 (Suc 0) = 9"
  "nibble HILBERT_LUT_1 2 2 = 7"
  "nibble HILBERT_LUT_1 2 3 = 12"
  "nibble HILBERT_LUT_1 3 0 = 14"
  "nibble HILBERT_LUT_1 3 (Suc 0) = 3"
  "nibble HILBERT_LUT_1 3 2 = 13"
  "nibble HILBERT_LUT_1 3 3 = 8"
  by (simp_all add: nibble_def HILBERT_LUT_1_def)

lemma nibble_inv:
  "nibble HILBERT_INVERSE_LUT_1 0 0 = 4"
  "nibble HILBERT_INVERSE_LUT_1 0 (Suc 0) = 2"
  "nibble HILBERT_INVERSE_LUT_1 0 2 = 3"
  "nibble HILBERT_INVERSE_LUT_1 0 3 = 13"
  "nibble HILBERT_INVERSE_LUT_1 (Suc 0) 0 = 0"
  "nibble HILBERT_INVERSE_LUT_1 (Suc 0) (Suc 0) = 5"
  "nibble HILBERT_INVERSE_LUT_1 (Suc 0) 2 = 7"
  "nibble HILBERT_INVERSE_LUT_1 (Suc 0) 3 = 10"
  "nibble HILBERT_INVERSE_LUT_1 2 0 = 15"
  "nibble HILBERT_INVERSE_LUT_1 2 (Suc 0) = 9"
  "nibble HILBERT_INVERSE_LUT_1 2 2 = 8"
  "nibble HILBERT_INVERSE_LUT_1 2 3 = 6"
  "nibble HILBERT_INVERSE_LUT_1 3 0 = 11"
  "nibble HILBERT_INVERSE_LUT_1 3 (Suc 0) = 14"
  "nibble HILBERT_INVERSE_LUT_1 3 2 = 12"
  "nibble HILBERT_INVERSE_LUT_1 3 3 = (Suc 0)"
  by (simp_all add: nibble_def HILBERT_INVERSE_LUT_1_def)

lemma nibble_less: "nibble L s d < 16"
  by (simp add: nibble_def)

lemma run3: "run t 3 s v =
  (let e1 = t s ((v div 16) mod 4);
       e2 = t (e1 div 4) ((v div 4) mod 4);
       e3 = t (e2 div 4) (v mod 4)
   in (e3 div 4, (e1 mod 4) * 16 + (e2 mod 4) * 4 + e3 mod 4))"
  by (simp add: numeral_3_eq_3 Let_def)

lemma fwd_row:
  assumes "s < 4" "v < 64"
  shows "unat (HILBERT_LUT_3 ! (64 * s + v)) =
     64 * fst (run (nibble HILBERT_LUT_1) 3 s v) + snd (run (nibble HILBERT_LUT_1) 3 s v)"
  using cases4 [OF assms(1)] cases64 [OF assms(2)]
  by (elim disjE) (simp_all add: run3 nibble_fwd HILBERT_LUT_3_def)

lemma inv_row:
  assumes "s < 4" "v < 64"
  shows "unat (HILBERT_INVERSE_LUT_3 ! (64 * s + v)) =
     64 * fst (run (nibble HILBERT_INVERSE_LUT_1) 3 s v) + snd (run (nibble HILBERT_INVERSE_LUT_1) 3 s v)"
  using cases4 [OF assms(1)] cases64 [OF assms(2)]
  by (elim disjE) (simp_all add: run3 nibble_inv HILBERT_INVERSE_LUT_3_def)

lemma table3_fwd: "table3 HILBERT_LUT_3 (nibble HILBERT_LUT_1)"
  unfolding table3_def using fwd_row by blast

lemma table3_inv: "table3 HILBERT_INVERSE_LUT_3 (nibble HILBERT_INVERSE_LUT_1)"
  unfolding table3_def using inv_row by blast

lemma inverse_tables_fwd: "inverse_tables (nibble HILBERT_LUT_1) (nibble HILBERT_INVERSE_LUT_1)"
  unfolding inverse_tables_def
proof (intro allI impI)
  fix s d :: nat
  assume "s < 4" "d < 4"
  then show "nibble HILBERT_LUT_1 s d < 16 \<and>
      nibble HILBERT_INVERSE_LUT_1 s (nibble HILBERT_LUT_1 s d mod 4) =
      4 * (nibble HILBERT_LUT_1 s d div 4) + d"
    by (auto dest!: cases4 simp add: nibble_fwd nibble_inv)
qed

lemma inverse_tables_inv: "inverse_tables (nibble HILBERT_INVERSE_LUT_1) (nibble HILBERT_LUT_1)"
  unfolding inverse_tables_def
proof (intro allI impI)
  fix s d :: nat
  assume "s < 4" "d < 4"
  then show "nibble HILBERT_INVERSE_LUT_1 s d < 16 \<and>
      nibble HILBERT_LUT_1 s (nibble HILBERT_INVERSE_LUT_1 s d mod 4) =
      4 * (nibble HILBERT_INVERSE_LUT_1 s d div 4) + d"
    by (auto dest!: cases4 simp add: nibble_fwd nibble_inv)
qed

section \<open>Bit masks and shifts as arithmetic\<close>

lemma nat_and_mask: "n AND mask k = n mod 2 ^ k" for n :: nat
  by (simp flip: take_bit_eq_mask add: take_bit_eq_mod)

lemma nat_and_shifted_mask:
  "n AND push_bit a (mask b) = 2 ^ a * ((n div 2 ^ a) mod 2 ^ b)" for n :: nat
proof -
  have "n AND push_bit a (mask b) = push_bit a (take_bit b (drop_bit a n))"
    by (rule bit_eqI) (auto simp add: bit_simps)
  then show ?thesis
    by (simp add: push_bit_eq_mult take_bit_eq_mod drop_bit_eq_div)
qed

lemma nat_and_63: "n AND 63 = n mod 64" for n :: nat
  using nat_and_mask [of n 6] by (simp add: mask_eq_exp_minus_1)

lemma nat_and_3: "n AND 3 = n mod 4" for n :: nat
  using nat_and_mask [of n 2] by (simp add: mask_eq_exp_minus_1)

lemma nat_and_192: "n AND 192 = 64 * ((n div 64) mod 4)" for n :: nat
  using nat_and_shifted_mask [of n 6 2] by (simp add: mask_eq_exp_minus_1 push_bit_eq_mult)

lemma nat_and_12: "n AND 12 = 4 * ((n div 4) mod 4)" for n :: nat
  using nat_and_shifted_mask [of n 2 2] by (simp add: mask_eq_exp_minus_1 push_bit_eq_mult)

lemma nat_or_disjoint: "a * 2 ^ k OR y = a * 2 ^ k + y" if "y < 2 ^ k" for a y :: nat
proof -
  have "push_bit k a OR take_bit k y = push_bit k a + take_bit k y"
    by (rule disjunctive_add_eq_or [symmetric]) (simp add: bit_eq_iff bit_simps)
  with that show ?thesis
    by (simp add: push_bit_eq_mult take_bit_nat_eq_self)
qed

lemma unat_and_63: "unat (w AND 0x3f) = unat w mod 64" for w :: u64
  by (simp add: unsigned_and_eq nat_and_63)

lemma unat_and_63_u8: "unat (j AND 0x3f) = unat j mod 64" for j :: u8
  by (simp add: unsigned_and_eq nat_and_63)

lemma unat_and_3: "unat (w AND 3) = unat w mod 4" for w :: u64
  by (simp add: unsigned_and_eq nat_and_3)

lemma unat_and_192: "unat (j AND 0xc0) = 64 * ((unat j div 64) mod 4)" for j :: u8
  by (simp add: unsigned_and_eq nat_and_192)

lemma unat_and_12: "unat (i AND 0xc) = 4 * ((unat i div 4) mod 4)" for i :: u64
  by (simp add: unsigned_and_eq nat_and_12)

lemma unat_ucast_u8: "unat (ucast j :: u64) = unat j" for j :: u8
proof -
  have "unat j < 2 ^ 64"
    using unsigned_less [of j, where ?'a = nat] by simp
  then show ?thesis
    by (simp add: unsigned_ucast_eq take_bit_nat_eq_self)
qed

lemma unat_or_state:
  fixes i y :: u64
  assumes "unat i = 64 * s" "unat y < 64"
  shows "unat (i OR y) = 64 * s + unat y"
  using nat_or_disjoint [of "unat y" 6 s] assms
  by (simp add: unsigned_or_eq mult.commute)

lemma unat_push_bit:
  fixes h :: u64
  assumes "unat h < 2 ^ (64 - k)" "k \<le> 64"
  shows "unat (push_bit k h) = unat h * 2 ^ k"
proof -
  have "unat h * 2 ^ k < 2 ^ (64 - k) * 2 ^ k"
    using assms(1) by simp
  also have "\<dots> = 2 ^ 64"
    using assms(2) by (simp flip: power_add)
  finally have small: "push_bit k (unat h) < 2 ^ LENGTH(64)"
    by (simp add: push_bit_eq_mult)
  have "unat (push_bit k h) = take_bit LENGTH(64) (push_bit k (unat h))"
    by (rule unsigned_push_bit_eq)
  also have "\<dots> = push_bit k (unat h)"
    using small by (rule take_bit_nat_eq_self)
  finally show ?thesis
    by (simp add: push_bit_eq_mult)
qed

lemma unat_shift_or:
  fixes h d :: u64
  assumes "unat d < 2 ^ k" "unat h < 2 ^ (64 - k)" "k \<le> 64"
  shows "unat (push_bit k h OR d) = unat h * 2 ^ k + unat d"
  unfolding unsigned_or_eq unat_push_bit [OF assms(2,3)]
  using assms(1) by (rule nat_or_disjoint)

lemma pow4_3: "(4::nat) ^ (3 * g) = 64 ^ g"
  by (simp add: power_mult)

lemma pow2_6: "(2::nat) ^ (6 * g) = 64 ^ g"
  by (simp add: power_mult)

lemma pow2_2: "(2::nat) ^ (2 * a) = 4 ^ a"
  by (simp add: power_mult)

section \<open>The table-driven loops compute the transducer\<close>

lemma mortonToHilbert_loop_lut3:
  "mortonToHilbert_loop z m h i = lut3_loop HILBERT_LUT_3 z m h i"
proof (induction z m h i rule: mortonToHilbert_loop.induct)
  case (1 z m h i)
  show ?case
  proof (cases "6 \<le> m")
    case True
    then show ?thesis
      by (subst mortonToHilbert_loop.simps, subst lut3_loop.simps) (simp add: Let_def 1)
  next
    case False
    then show ?thesis
      by (subst mortonToHilbert_loop.simps, subst lut3_loop.simps) simp
  qed
qed

lemma hilbertToMorton_loop_lut3:
  "hilbertToMorton_loop z m h i = lut3_loop HILBERT_INVERSE_LUT_3 z m h i"
proof (induction z m h i rule: hilbertToMorton_loop.induct)
  case (1 z m h i)
  show ?case
  proof (cases "6 \<le> m")
    case True
    then show ?thesis
      by (subst hilbertToMorton_loop.simps, subst lut3_loop.simps) (simp add: Let_def 1)
  next
    case False
    then show ?thesis
      by (subst hilbertToMorton_loop.simps, subst lut3_loop.simps) simp
  qed
qed

lemma mortonToHilbert_lut3: "mortonToHilbert z m = lut3_apply HILBERT_LUT_3 z m"
  by (simp add: mortonToHilbert_def lut3_apply_def mortonToHilbert_loop_lut3)

lemma hilbertToMorton_lut3: "hilbertToMorton h m = lut3_apply HILBERT_INVERSE_LUT_3 h m"
  by (simp add: hilbertToMorton_def lut3_apply_def hilbertToMorton_loop_lut3)

lemma table3_entry:
  assumes "table3 T t" "\<And>s d. t s d < 16" "s < 4"
  shows "unat (T ! (64 * s + v mod 64)) mod 64 = snd (run t 3 s v)"
    and "(unat (T ! (64 * s + v mod 64)) div 64) mod 4 = fst (run t 3 s v)"
proof -
  have e: "unat (T ! (64 * s + v mod 64)) = 64 * fst (run t 3 s v) + snd (run t 3 s v)"
    using assms(1,3) run_mod [of t 3 s v] unfolding table3_def by simp
  have o: "snd (run t 3 s v) < 64"
    using run_bound [of t 3 s v] by simp
  have st: "fst (run t 3 s v) < 4"
    using assms(3,2) by (rule run_state)
  show "unat (T ! (64 * s + v mod 64)) mod 64 = snd (run t 3 s v)"
    unfolding e using o by simp
  show "(unat (T ! (64 * s + v mod 64)) div 64) mod 4 = fst (run t 3 s v)"
    unfolding e using o st by simp
qed

lemma lut3_index:
  fixes i z :: u64
  assumes "unat i = 64 * s"
  shows "unat (i OR (drop_bit k z AND 0x3f)) = 64 * s + (unat z div 2 ^ k) mod 64"
proof -
  have "unat (drop_bit k z AND 0x3f) = (unat z div 2 ^ k) mod 64"
    by (simp only: unat_and_63 unat_drop_bit_eq) (simp add: drop_bit_eq_div)
  moreover from this have "unat (drop_bit k z AND 0x3f) < 64"
    by simp
  ultimately show ?thesis
    using unat_or_state [OF assms, of "drop_bit k z AND 0x3f"] by simp
qed

lemma lut3_step:
  fixes h i z :: u64 and k :: nat
  assumes T: "table3 T t" and t16: "\<And>s d. t s d < 16"
    and s: "s < 4" and i: "unat i = 64 * s" and h: "unat h < 2 ^ 58"
  defines "j \<equiv> T ! unat (i OR (drop_bit k z AND 0x3f))"
  shows "unat (push_bit 6 h OR ucast (j AND 0x3f)) = unat h * 64 + snd (run t 3 s (unat z div 2 ^ k))"
    and "unat (ucast (j AND 0xc0) :: u64) = 64 * fst (run t 3 s (unat z div 2 ^ k))"
proof -
  have j: "j = T ! (64 * s + (unat z div 2 ^ k) mod 64)"
    unfolding j_def lut3_index [OF i] ..
  have lo: "unat (ucast (j AND 0x3f) :: u64) = snd (run t 3 s (unat z div 2 ^ k))"
    unfolding unat_ucast_u8 unat_and_63_u8 j by (rule table3_entry(1) [OF T t16 s])
  have "unat (ucast (j AND 0x3f) :: u64) < 2 ^ 6"
    unfolding lo using run_bound [of t 3 s] by simp
  then have "unat (push_bit 6 h OR ucast (j AND 0x3f)) = unat h * 2 ^ 6 + unat (ucast (j AND 0x3f) :: u64)"
    using h by (intro unat_shift_or) simp_all
  then show "unat (push_bit 6 h OR ucast (j AND 0x3f)) = unat h * 64 + snd (run t 3 s (unat z div 2 ^ k))"
    unfolding lo by simp
  show "unat (ucast (j AND 0xc0) :: u64) = 64 * fst (run t 3 s (unat z div 2 ^ k))"
    unfolding unat_ucast_u8 unat_and_192 j using table3_entry(2) [OF T t16 s] by simp
qed

lemma lut3_loop_run:
  fixes h i z :: u64
  assumes T: "table3 T t" and t16: "\<And>s d. t s d < 16" and r: "0 \<le> r" "r < 6"
  shows "\<lbrakk>s < 4; unat i = 64 * s; 6 * g + nat r \<le> 64; unat h < 2 ^ (64 - (6 * g + nat r))\<rbrakk> \<Longrightarrow>
     \<exists>h' i'. lut3_loop T z (6 * int g + r) h i = (r, h', i') \<and>
        unat h' = unat h * 64 ^ g + snd (run t (3 * g) s (unat z div 2 ^ nat r)) \<and>
        unat i' = 64 * fst (run t (3 * g) s (unat z div 2 ^ nat r))"
proof (induction g arbitrary: s h i)
  case 0
  have "lut3_loop T z (6 * int 0 + r) h i = (r, h, i)"
    using r by (subst lut3_loop.simps) simp
  with 0 show ?case by simp
next
  case (Suc g)
  define k where "k = 6 * g + nat r"
  define Z where "Z = unat z div 2 ^ nat r"
  define j where "j = T ! unat (i OR (drop_bit k z AND 0x3f))"
  define h1 :: u64 where "h1 = push_bit 6 h OR ucast (j AND 0x3f)"
  define i1 :: u64 where "i1 = ucast (j AND 0xc0)"
  define S1 where "S1 = fst (run t 3 s (unat z div 2 ^ k))"
  define O1 where "O1 = snd (run t 3 s (unat z div 2 ^ k))"
  have k: "nat (6 * int g + r) = k"
    using r by (simp add: k_def nat_add_distrib nat_mult_distrib)
  have unfold: "lut3_loop T z (6 * int (Suc g) + r) h i = lut3_loop T z (6 * int g + r) h1 i1"
    using r by (subst lut3_loop.simps) (simp add: Let_def k h1_def i1_def j_def)
  have "(2::nat) ^ (64 - (6 * Suc g + nat r)) \<le> 2 ^ 58"
    by (rule power_increasing) simp_all
  with Suc.prems(4) have h58: "unat h < 2 ^ 58" by simp
  have h1: "unat h1 = unat h * 64 + O1" and i1: "unat i1 = 64 * S1"
    unfolding h1_def i1_def j_def O1_def S1_def
    using lut3_step [OF T t16 Suc.prems(1,2) h58] by simp_all
  have S1: "S1 < 4"
    unfolding S1_def using Suc.prems(1) t16 by (rule run_state)
  have O1: "O1 < 64"
    unfolding O1_def using run_bound [of t 3 s] by simp
  have "(unat h + 1) * 64 \<le> 2 ^ (64 - (6 * Suc g + nat r)) * 2 ^ 6"
    using Suc.prems(4) by simp
  also have "\<dots> = 2 ^ (64 - k)"
  proof -
    have "64 - k = (64 - (6 * Suc g + nat r)) + 6"
      using Suc.prems(3) by (simp add: k_def)
    then show ?thesis
      by (simp only: power_add)
  qed
  finally have h1b: "unat h1 < 2 ^ (64 - (6 * g + nat r))"
    unfolding h1 k_def using O1 by simp
  have kb: "6 * g + nat r \<le> 64"
    using Suc.prems(3) by simp
  from Suc.IH [OF S1 i1 kb h1b] obtain h' i' where
    loop: "lut3_loop T z (6 * int g + r) h1 i1 = (r, h', i')"
    and h': "unat h' = unat h1 * 64 ^ g + snd (run t (3 * g) S1 Z)"
    and i': "unat i' = 64 * fst (run t (3 * g) S1 Z)"
    unfolding Z_def by blast
  have "unat z div 2 ^ k = unat z div (2 ^ nat r * 2 ^ (6 * g))"
    unfolding k_def by (simp add: power_add mult.commute)
  also have "\<dots> = Z div 2 ^ (6 * g)"
    unfolding Z_def by (rule div_mult2_eq)
  finally have "Z div 4 ^ (3 * g) = unat z div 2 ^ k"
    unfolding pow4_3 pow2_6 by simp
  then have app: "run t (3 * Suc g) s Z =
      (fst (run t (3 * g) S1 Z), O1 * 4 ^ (3 * g) + snd (run t (3 * g) S1 Z))"
    using run_append [of t 3 "3 * g" s Z] by (simp add: Let_def S1_def O1_def)
  have "unat h' = unat h * 64 ^ Suc g + snd (run t (3 * Suc g) s Z)"
    unfolding h' h1 app snd_conv pow4_3 by (simp add: algebra_simps)
  moreover have "unat i' = 64 * fst (run t (3 * Suc g) s Z)"
    unfolding i' app by simp
  ultimately show ?case
    unfolding unfold loop Z_def by simp
qed

lemma lut3_partial_index:
  fixes i z :: u64
  assumes "unat i = 64 * s"
  shows "unat (i OR (push_bit k z AND 0x3f)) = 64 * s + (unat z * 2 ^ k) mod 64"
proof -
  have "unat (push_bit k z AND 0x3f) = take_bit LENGTH(64) (push_bit k (unat z)) mod 64"
    by (simp only: unat_and_63 unsigned_push_bit_eq)
  also have "\<dots> = (unat z * 2 ^ k) mod 2 ^ 64 mod 64"
    by (simp add: take_bit_eq_mod push_bit_eq_mult)
  also have "\<dots> = (unat z * 2 ^ k) mod 64"
    by (rule mod_mod_cancel) simp
  finally have e: "unat (push_bit k z AND 0x3f) = (unat z * 2 ^ k) mod 64" .
  then have "unat (push_bit k z AND 0x3f) < 64"
    by simp
  with e show ?thesis
    using unat_or_state [OF assms, of "push_bit k z AND 0x3f"] by simp
qed

lemma run_prefix:
  assumes "a + b = 3"
  shows "snd (run t 3 s ((v * 4 ^ b) mod 64)) div 4 ^ b = snd (run t a s v)"
proof -
  have "run t 3 s ((v * 4 ^ b) mod 64) = run t 3 s (v * 4 ^ b)"
    using run_mod [of t 3 s "v * 4 ^ b"] by simp
  also have "\<dots> = run t (a + b) s (v * 4 ^ b)"
    using assms by simp
  finally have "snd (run t 3 s ((v * 4 ^ b) mod 64)) =
      snd (run t a s v) * 4 ^ b + snd (run t b (fst (run t a s v)) (v * 4 ^ b))"
    by (simp add: run_append Let_def)
  moreover have "snd (run t b (fst (run t a s v)) (v * 4 ^ b)) < 4 ^ b"
    by (rule run_bound)
  ultimately show ?thesis by simp
qed

lemma lut3_apply_run:
  assumes T: "table3 T t" and t16: "\<And>s d. t s d < 16" and m: "0 \<le> m" "m \<le> 32"
  shows "unat (lut3_apply T z m) = snd (run t (nat m) 0 (unat z))"
proof -
  define n where "n = nat m"
  define g where "g = n div 3"
  define a where "a = n mod 3"
  define r where "r = int (2 * a)"
  define Z where "Z = unat z div 2 ^ nat r"
  define S1 where "S1 = fst (run t (3 * g) 0 Z)"
  have n: "n = 3 * g + a" "n \<le> 32" "a < 3"
    using m by (simp_all add: n_def g_def a_def)
  have m2: "2 * m = 6 * int g + r"
    using m n(1) by (simp add: r_def n_def)
  have r: "0 \<le> r" "r < 6" "nat r = 2 * a"
    using n(3) by (simp_all add: r_def)
  have Z: "Z = unat z div 4 ^ a"
    unfolding Z_def r(3) pow2_2 ..
  have "\<exists>h' i'. lut3_loop T z (6 * int g + r) 0 0 = (r, h', i') \<and>
        unat h' = unat (0::u64) * 64 ^ g + snd (run t (3 * g) 0 (unat z div 2 ^ nat r)) \<and>
        unat i' = 64 * fst (run t (3 * g) 0 (unat z div 2 ^ nat r))"
    using n r by (intro lut3_loop_run [OF T t16]) simp_all
  then obtain h1 i1 where loop: "lut3_loop T z (2 * m) 0 0 = (r, h1, i1)"
    and h1: "unat h1 = snd (run t (3 * g) 0 Z)" and i1: "unat i1 = 64 * S1"
    unfolding m2 Z_def S1_def by auto
  have S1: "S1 < 4"
    unfolding S1_def using t16 by (intro run_state) simp_all
  have whole: "snd (run t n 0 (unat z)) = unat h1 * 4 ^ a + snd (run t a S1 (unat z))"
    unfolding n(1) h1 S1_def Z by (simp add: run_append Let_def)
  show ?thesis
  proof (cases "a = 0")
    case True
    then have "lut3_apply T z m = h1"
      by (simp add: lut3_apply_def loop r_def)
    with True whole show ?thesis
      by (simp add: n_def)
  next
    case False
    define b where "b = 3 - a"
    define j where "j = T ! unat (i1 OR (push_bit (nat (6 - r)) z AND 0x3f))"
    define d :: u64 where "d = ucast (drop_bit (nat (6 - r)) (j AND 0x3f))"
    have ab: "a + b = 3" "nat (6 - r) = 2 * b"
      using n(3) by (simp_all add: b_def r_def)
    have res: "lut3_apply T z m = push_bit (nat r) h1 OR d"
      using False by (simp add: lut3_apply_def loop r_def Let_def d_def j_def)
    have j: "j = T ! (64 * S1 + (unat z * 4 ^ b) mod 64)"
      unfolding j_def lut3_partial_index [OF i1] ab(2) pow2_2 ..
    have "unat d = (unat j mod 64) div 4 ^ b"
      unfolding d_def unat_ucast_u8 unat_drop_bit_eq unat_and_63_u8 ab(2)
      by (simp add: drop_bit_eq_div pow2_2)
    also have "unat j mod 64 = snd (run t 3 S1 ((unat z * 4 ^ b) mod 64))"
      unfolding j using table3_entry(1) [OF T t16 S1, of "unat z * 4 ^ b"] run_mod [of t 3 S1 "unat z * 4 ^ b"]
      by simp
    also have "\<dots> div 4 ^ b = snd (run t a S1 (unat z))"
      using ab(1) by (rule run_prefix)
    finally have d: "unat d = snd (run t a S1 (unat z))" .
    have db: "unat d < 2 ^ nat r"
      unfolding d r(3) pow2_2 by (rule run_bound)
    have "unat h1 < 4 ^ (3 * g)"
      unfolding h1 by (rule run_bound)
    also have "(4::nat) ^ (3 * g) = 2 ^ (6 * g)"
      by (simp add: pow4_3 pow2_6)
    also have "(2::nat) ^ (6 * g) \<le> 2 ^ (64 - nat r)"
      using n r(3) by (intro power_increasing) simp_all
    finally have hb: "unat h1 < 2 ^ (64 - nat r)" .
    have "unat (push_bit (nat r) h1 OR d) = unat h1 * 2 ^ nat r + unat d"
      using db hb r by (intro unat_shift_or) simp_all
    then show ?thesis
      unfolding res d r(3) pow2_2 using whole by (simp add: n_def)
  qed
qed

lemma mortonToHilbert_run:
  "0 \<le> m \<Longrightarrow> m \<le> 32 \<Longrightarrow>
     unat (mortonToHilbert z m) = snd (run (nibble HILBERT_LUT_1) (nat m) 0 (unat z))"
  unfolding mortonToHilbert_lut3 by (rule lut3_apply_run [OF table3_fwd nibble_less])

lemma hilbertToMorton_run:
  "0 \<le> m \<Longrightarrow> m \<le> 32 \<Longrightarrow>
     unat (hilbertToMorton h m) = snd (run (nibble HILBERT_INVERSE_LUT_1) (nat m) 0 (unat h))"
  unfolding hilbertToMorton_lut3 by (rule lut3_apply_run [OF table3_inv nibble_less])

section \<open>The one-pair-at-a-time reference loop\<close>

lemma ref_step:
  fixes i z h :: u64 and n :: nat
  defines "s \<equiv> (unat i div 4) mod 4"
  defines "i1 \<equiv> (i AND 0xc) OR (drop_bit (2 * n) z AND 3)"
  defines "i2 \<equiv> drop_bit (unat (i1 * 4)) HILBERT_LUT_1"
  defines "e \<equiv> nibble HILBERT_LUT_1 s ((unat z div 4 ^ n) mod 4)"
  assumes h: "unat h < 2 ^ 62"
  shows "unat (push_bit 2 h OR (i2 AND 3)) = unat h * 4 + e mod 4"
    and "(unat i2 div 4) mod 4 = e div 4"
proof -
  have d: "unat (drop_bit (2 * n) z AND 3) = (unat z div 4 ^ n) mod 4"
    by (simp only: unat_and_3 unat_drop_bit_eq) (simp add: drop_bit_eq_div pow2_2)
  have "unat i1 = s * 2 ^ 2 + (unat z div 4 ^ n) mod 4"
    unfolding i1_def unsigned_or_eq unat_and_12 d s_def
    using nat_or_disjoint [of "(unat z div 4 ^ n) mod 4" 2 "(unat i div 4) mod 4"]
    by (simp add: mult.commute)
  then have i1: "unat i1 = 4 * s + (unat z div 4 ^ n) mod 4"
    by simp
  have "s < 4" by (simp add: s_def)
  then have "unat i1 < 16"
    unfolding i1 by (simp add: less_Suc_eq_le) 
  then have "unat (i1 * 4) = 4 * unat i1"
    by (simp add: unat_word_ariths)
  then have "unat i2 = unat HILBERT_LUT_1 div 16 ^ unat i1"
    unfolding i2_def by (simp only: unat_drop_bit_eq) (simp add: drop_bit_eq_div power_mult)
  then have i2: "unat i2 mod 16 = e"
    unfolding e_def nibble_def i1 by simp
  have m4: "unat i2 mod 4 = e mod 4"
    unfolding i2 [symmetric] by (simp add: mod_mod_cancel)
  have "unat (i2 AND 3) < 2 ^ 2"
    unfolding unat_and_3 by simp
  then have "unat (push_bit 2 h OR (i2 AND 3)) = unat h * 2 ^ 2 + unat (i2 AND 3)"
    using h by (intro unat_shift_or) simp_all
  then show "unat (push_bit 2 h OR (i2 AND 3)) = unat h * 4 + e mod 4"
    unfolding unat_and_3 m4 by simp
  have "unat i2 mod 16 = ((unat i2 div 4) mod 4) * 4 + unat i2 mod 4"
    using mod_split [of "unat i2" 4 4] by simp
  then have "(unat i2 mod 16) div 4 = (unat i2 div 4) mod 4"
    by simp
  then show "(unat i2 div 4) mod 4 = e div 4"
    unfolding i2 by simp
qed

lemma ref_loop_run:
  "\<lbrakk>n \<le> 32; unat h < 2 ^ (64 - 2 * n)\<rbrakk> \<Longrightarrow>
     unat (hilbertIndex_ref_loop z (2 * n) h i) =
       unat h * 4 ^ n + snd (run (nibble HILBERT_LUT_1) n ((unat i div 4) mod 4) (unat z))"
proof (induction n arbitrary: h i)
  case 0
  show ?case by (subst hilbertIndex_ref_loop.simps) simp
next
  case (Suc n)
  define i1 where "i1 = (i AND 0xc) OR (drop_bit (2 * n) z AND 3)"
  define i2 where "i2 = drop_bit (unat (i1 * 4)) HILBERT_LUT_1"
  define h1 where "h1 = push_bit 2 h OR (i2 AND 3)"
  define e where "e = nibble HILBERT_LUT_1 ((unat i div 4) mod 4) ((unat z div 4 ^ n) mod 4)"
  have unfold: "hilbertIndex_ref_loop z (2 * Suc n) h i = hilbertIndex_ref_loop z (2 * n) h1 i2"
    by (subst hilbertIndex_ref_loop.simps) (simp add: Let_def i1_def i2_def h1_def)
  have "(2::nat) ^ (64 - 2 * Suc n) \<le> 2 ^ 62"
    by (rule power_increasing) simp_all
  with Suc.prems(2) have h62: "unat h < 2 ^ 62" by simp
  have h1: "unat h1 = unat h * 4 + e mod 4" and st: "(unat i2 div 4) mod 4 = e div 4"
    unfolding h1_def i2_def i1_def e_def using ref_step [OF h62] by simp_all
  have "(unat h + 1) * 4 \<le> 2 ^ (64 - 2 * Suc n) * 2 ^ 2"
    using Suc.prems(2) by simp
  also have "\<dots> = 2 ^ (64 - 2 * n)"
  proof -
    have "64 - 2 * n = (64 - 2 * Suc n) + 2"
      using Suc.prems(1) by simp
    then show ?thesis by (simp only: power_add)
  qed
  finally have "unat h1 < 2 ^ (64 - 2 * n)"
    unfolding h1 by simp
  with Suc.prems(1) have "unat (hilbertIndex_ref_loop z (2 * n) h1 i2) =
      unat h1 * 4 ^ n + snd (run (nibble HILBERT_LUT_1) n ((unat i2 div 4) mod 4) (unat z))"
    by (intro Suc.IH) simp_all
  then show ?case
    unfolding unfold h1 st by (simp add: Let_def e_def algebra_simps)
qed

lemma mortonToHilbert_ref:
  assumes "0 \<le> m" "m \<le> 32"
  shows "mortonToHilbert z m = hilbertIndex_ref_loop z (2 * nat m) 0 0"
proof -
  have "unat (hilbertIndex_ref_loop z (2 * nat m) 0 0) =
      snd (run (nibble HILBERT_LUT_1) (nat m) 0 (unat z))"
    using assms ref_loop_run [of "nat m" 0 z 0] by simp
  then have "unat (mortonToHilbert z m) = unat (hilbertIndex_ref_loop z (2 * nat m) 0 0)"
    using mortonToHilbert_run [OF assms] by simp
  then show ?thesis
    by (simp add: word_unat_eq_iff)
qed

text \<open>
  C4. For \<open>m\<close> in 0..32 and every 64-bit \<open>z\<close>, the unrolled table-driven
  \<open>mortonToHilbert\<close> returns the same value as the one-pair-at-a-time reference loop over
  \<open>HILBERT_LUT_1\<close>; hence \<open>hilbertIndex\<close> agrees with the reference implementation of
  the file comment.
\<close>

theorem mortonToHilbert_matches_reference:
  assumes "0 \<le> m" "m \<le> 32"
  shows "mortonToHilbert z m = hilbertIndex_ref_loop z (2 * nat m) 0 0
       \<and> hilbertIndex x y m = hilbertIndex_ref x y (nat m)"
  using mortonToHilbert_ref [OF assms] by (simp add: hilbertIndex_def hilbertIndex_ref_def)

theorem mortonToHilbert_matches_reference_witness:
  "(0::int) \<le> 2 \<and> (2::int) \<le> 32
   \<and> mortonToHilbert 27 2 = hilbertIndex_ref_loop 27 (2 * nat 2) 0 0
   \<and> hilbertIndex 3 1 2 = hilbertIndex_ref 3 1 (nat 2)"
  using mortonToHilbert_matches_reference [of 2 27 3 1] by simp

section \<open>Grid cells along the curve\<close>

lemma evens_cong: "z mod 4 ^ n = w mod 4 ^ n \<Longrightarrow> evens n z = evens n w"
proof (induction n)
  case 0
  show ?case by simp
next
  case (Suc n)
  from Suc.prems have "(z div 4 ^ n) mod 4 = (w div 4 ^ n) mod 4" "z mod 4 ^ n = w mod 4 ^ n"
    by (rule digit_cong, rule mod_cong_lower)
  with Suc.IH show ?case by simp
qed

lemma odds_cong: "z mod 4 ^ n = w mod 4 ^ n \<Longrightarrow> odds n z = odds n w"
proof (induction n)
  case 0
  show ?case by simp
next
  case (Suc n)
  from Suc.prems have "(z div 4 ^ n) mod 4 = (w div 4 ^ n) mod 4" "z mod 4 ^ n = w mod 4 ^ n"
    by (rule digit_cong, rule mod_cong_lower)
  with Suc.IH show ?case by simp
qed

lemma evens_bound: "evens n z < 2 ^ n"
proof (induction n)
  case 0
  show ?case by simp
next
  case (Suc n)
  have "((z div 4 ^ n) mod 4) mod 2 * 2 ^ n \<le> 1 * 2 ^ n"
    by (intro mult_le_mono1) simp
  with Suc have "((z div 4 ^ n) mod 4) mod 2 * 2 ^ n + evens n z < 2 * 2 ^ n"
    by linarith
  then show ?case by simp
qed

lemma odds_bound: "odds n z < 2 ^ n"
proof (induction n)
  case 0
  show ?case by simp
next
  case (Suc n)
  have "((z div 4 ^ n) mod 4) div 2 \<le> 1"
    by simp
  then have "((z div 4 ^ n) mod 4) div 2 * 2 ^ n \<le> 1 * 2 ^ n"
    by (intro mult_le_mono1)
  with Suc have "((z div 4 ^ n) mod 4) div 2 * 2 ^ n + odds n z < 2 * 2 ^ n"
    by linarith
  then show ?case by simp
qed

lemma cell_cong: "h mod 4 ^ n = k mod 4 ^ n \<Longrightarrow> cell t n s h = cell t n s k"
  unfolding cell_def by (simp add: run_cong [of h n k])

lemma cell_0: "cell t 0 s h = (0, 0)"
  by (simp add: cell_def)

lemma half_nibble: "(e mod 4) mod 2 = e mod 2" "(e mod 4) div 2 = (e div 2) mod 2" for e :: nat
proof -
  show "(e mod 4) mod 2 = e mod 2"
    by (simp add: mod_mod_cancel)
  have "e mod 4 = ((e div 2) mod 2) * 2 + e mod 2"
    using mod_split [of e 2 2] by simp
  then show "(e mod 4) div 2 = (e div 2) mod 2"
    by simp
qed

lemma cell_Suc:
  "cell t (Suc n) s h =
     (let e = t s ((h div 4 ^ n) mod 4); c = cell t n (e div 4) h
      in ((e mod 2) * 2 ^ n + fst c, ((e div 2) mod 2) * 2 ^ n + snd c))"
proof -
  define e where "e = t s ((h div 4 ^ n) mod 4)"
  define z where "z = snd (run t n (e div 4) h)"
  define w where "w = (e mod 4) * 4 ^ n + z"
  have z: "z < 4 ^ n" unfolding z_def by (rule run_bound)
  have out: "snd (run t (Suc n) s h) = w"
    unfolding w_def e_def z_def by (simp add: Let_def)
  have dig: "(w div 4 ^ n) mod 4 = e mod 4"
    unfolding w_def using z by simp
  have low: "w mod 4 ^ n = z mod 4 ^ n"
    unfolding w_def by simp
  have "evens (Suc n) w = (e mod 2) * 2 ^ n + evens n z"
    unfolding evens.simps dig half_nibble evens_cong [OF low] ..
  moreover have "odds (Suc n) w = ((e div 2) mod 2) * 2 ^ n + odds n z"
    unfolding odds.simps dig half_nibble odds_cong [OF low] ..
  ultimately have "cell t (Suc n) s h =
      ((e mod 2) * 2 ^ n + evens n z, ((e div 2) mod 2) * 2 ^ n + odds n z)"
    unfolding cell_def out by (rule arg_cong2 [of _ _ _ _ Pair])
  then show ?thesis
    unfolding Let_def cell_def [of t n] fst_conv snd_conv e_def z_def .
qed

lemma next_state: "s < 4 \<Longrightarrow> d < 4 \<Longrightarrow> inv_step s d div 4 < 4"
  by (simp add: nibble_def)

lemma pred_pow: "\<exists>p::nat. p + 1 = b ^ n" if "0 < b" for b :: nat
proof -
  have "0 < b ^ n" using that by simp
  then have "(b ^ n - 1) + 1 = b ^ n" by simp
  then show ?thesis ..
qed

lemma cell_first:
  "s < 4 \<Longrightarrow> p + 1 = 2 ^ n \<Longrightarrow>
     cell inv_step n s 0 = (fst (entry_corner s) * p, snd (entry_corner s) * p)"
proof (induction n arbitrary: s p)
  case 0
  then show ?case by (simp add: cell_0)
next
  case (Suc n)
  obtain p0 :: nat where p0: "p0 + 1 = 2 ^ n"
    using pred_pow [of 2 n] by auto
  with Suc.prems(2) have p: "p = 2 ^ n + p0"
    by simp
  have step: "cell inv_step n (inv_step s 0 div 4) 0 =
     (fst (entry_corner (inv_step s 0 div 4)) * p0, snd (entry_corner (inv_step s 0 div 4)) * p0)"
    using Suc.prems(1) p0 by (intro Suc.IH next_state) simp_all
  have tab: "inv_step s 0 mod 2 = fst (entry_corner s)" "(inv_step s 0 div 2) mod 2 = snd (entry_corner s)"
    "entry_corner (inv_step s 0 div 4) = entry_corner s"
    using cases4 [OF Suc.prems(1)] by (auto simp add: nibble_inv entry_corner_def)
  show ?case
    unfolding cell_Suc Let_def p by (simp add: step tab algebra_simps del: power_Suc)
qed

lemma cell_last:
  "s < 4 \<Longrightarrow> p + 1 = 2 ^ n \<Longrightarrow> q + 1 = 4 ^ n \<Longrightarrow>
     cell inv_step n s q = (fst (exit_corner s) * p, snd (exit_corner s) * p)"
proof (induction n arbitrary: s p q)
  case 0
  then show ?case by (simp add: cell_0)
next
  case (Suc n)
  obtain p0 :: nat where p0: "p0 + 1 = 2 ^ n"
    using pred_pow [of 2 n] by auto
  obtain q0 :: nat where q0: "q0 + 1 = 4 ^ n"
    using pred_pow [of 4 n] by auto
  from p0 Suc.prems(2) have p: "p = 2 ^ n + p0"
    by simp
  from q0 Suc.prems(3) have q: "q = 3 * 4 ^ n + q0"
    by simp
  from q0 have q0b: "q0 < 4 ^ n"
    by simp
  have dig: "(q div 4 ^ n) mod 4 = 3"
    unfolding q using q0b by simp
  have "q mod 4 ^ n = q0 mod 4 ^ n"
    unfolding q by simp
  then have "cell inv_step n (inv_step s 3 div 4) q = cell inv_step n (inv_step s 3 div 4) q0"
    by (rule cell_cong)
  also have "\<dots> =
     (fst (exit_corner (inv_step s 3 div 4)) * p0, snd (exit_corner (inv_step s 3 div 4)) * p0)"
    using Suc.prems(1) p0 q0 by (intro Suc.IH next_state) simp_all
  finally have step: "cell inv_step n (inv_step s 3 div 4) q =
     (fst (exit_corner (inv_step s 3 div 4)) * p0, snd (exit_corner (inv_step s 3 div 4)) * p0)" .
  have tab: "inv_step s 3 mod 2 = fst (exit_corner s)" "(inv_step s 3 div 2) mod 2 = snd (exit_corner s)"
    "exit_corner (inv_step s 3 div 4) = exit_corner s"
    using cases4 [OF Suc.prems(1)] by (auto simp add: nibble_inv exit_corner_def)
  show ?case
    unfolding cell_Suc Let_def dig step tab fst_conv snd_conv p by (simp add: algebra_simps)
qed

lemma adjacent_shift:
  "adjacent c1 c2 \<Longrightarrow> adjacent (a + fst c1, b + snd c1) (a + fst c2, b + snd c2)"
  unfolding adjacent_def by auto

lemma junction:
  assumes "s < 4" "d < 3" "d' = d + 1"
  shows "adjacent
     ((inv_step s d mod 2) * (p + 1) + fst (exit_corner (inv_step s d div 4)) * p,
      ((inv_step s d div 2) mod 2) * (p + 1) + snd (exit_corner (inv_step s d div 4)) * p)
     ((inv_step s d' mod 2) * (p + 1) + fst (entry_corner (inv_step s d' div 4)) * p,
      ((inv_step s d' div 2) mod 2) * (p + 1) + snd (entry_corner (inv_step s d' div 4)) * p)"
proof -
  from assms(2,3) have "d = 0 \<and> d' = Suc 0 \<or> d = Suc 0 \<and> d' = 2 \<or> d = 2 \<and> d' = 3"
    by arith
  with cases4 [OF assms(1)] show ?thesis
    by (elim disjE conjE) (simp_all add: nibble_inv entry_corner_def exit_corner_def adjacent_def)
qed

lemma block_div_mod: "x < N \<Longrightarrow> (q * N + x) div N = q \<and> (q * N + x) mod N = x" for x :: nat
  by simp

lemma cell_locality:
  "s < 4 \<Longrightarrow> h + 1 < 4 ^ n \<Longrightarrow> adjacent (cell inv_step n s h) (cell inv_step n s (h + 1))"
proof (induction n arbitrary: s h)
  case 0
  then show ?case by simp
next
  case (Suc n)
  define N :: nat where "N = 4 ^ n"
  define q where "q = h div N"
  define r where "r = h mod N"
  have N: "0 < N" by (simp add: N_def)
  have h: "h = q * N + r" and r: "r < N"
    using N by (simp_all add: q_def r_def)
  have q: "q < 4"
  proof -
    have "h < 4 * N" using Suc.prems(2) by (simp add: N_def)
    then show ?thesis unfolding q_def using N by (simp add: less_mult_imp_div_less)
  qed
  have dh: "(h div 4 ^ n) mod 4 = q"
    using q by (simp add: q_def N_def)
  show ?case
  proof (cases "r + 1 < N")
    case True
    have h1: "h + 1 = q * N + (r + 1)" using h by simp
    have "(h + 1) div N = q" "(h + 1) mod N = r + 1"
      using block_div_mod [OF True, of q] by (simp_all only: h1)
    then have dh1: "((h + 1) div 4 ^ n) mod 4 = q"
      using q by (simp add: N_def)
    have "(h + 1) mod N = (r + 1) mod N"
      using \<open>(h + 1) mod N = r + 1\<close> True by simp
    then have c1: "cell inv_step n (inv_step s q div 4) (h + 1) = cell inv_step n (inv_step s q div 4) (r + 1)"
      unfolding N_def by (rule cell_cong)
    have c0: "cell inv_step n (inv_step s q div 4) h = cell inv_step n (inv_step s q div 4) r"
      by (intro cell_cong) (simp add: N_def r_def)
    have "adjacent (cell inv_step n (inv_step s q div 4) r) (cell inv_step n (inv_step s q div 4) (r + 1))"
      using Suc.prems(1) q True by (intro Suc.IH next_state) (simp_all add: N_def)
    then show ?thesis
      unfolding cell_Suc Let_def dh dh1 c0 c1 by (rule adjacent_shift)
  next
    case False
    with r have r1: "r + 1 = N" by simp
    have h1: "h + 1 = (q + 1) * N" using h r1 by simp
    have q3: "q < 3"
    proof -
      have "(q + 1) * N < 4 * N" using Suc.prems(2) unfolding h1 by (simp add: N_def)
      then show ?thesis by simp
    qed
    have "(h + 1) div N = q + 1"
      unfolding h1 using N by simp
    then have dh1: "((h + 1) div 4 ^ n) mod 4 = q + 1"
      using q3 by (simp add: N_def)
    obtain p :: nat where p: "p + 1 = 2 ^ n"
      using pred_pow [of 2 n] by auto
    have s1: "inv_step s q div 4 < 4" and s2: "inv_step s (q + 1) div 4 < 4"
      using Suc.prems(1) q3 by (simp_all add: next_state)
    have "cell inv_step n (inv_step s q div 4) h = cell inv_step n (inv_step s q div 4) r"
      by (intro cell_cong) (simp add: N_def r_def)
    also have "\<dots> = (fst (exit_corner (inv_step s q div 4)) * p, snd (exit_corner (inv_step s q div 4)) * p)"
      using s1 p r1 by (intro cell_last) (simp_all add: N_def)
    finally have c0: "cell inv_step n (inv_step s q div 4) h =
        (fst (exit_corner (inv_step s q div 4)) * p, snd (exit_corner (inv_step s q div 4)) * p)" .
    have "(h + 1) mod N = 0 mod N"
      unfolding h1 by simp
    then have "cell inv_step n (inv_step s (q + 1) div 4) (h + 1) = cell inv_step n (inv_step s (q + 1) div 4) 0"
      unfolding N_def by (rule cell_cong)
    also have "\<dots> = (fst (entry_corner (inv_step s (q + 1) div 4)) * p, snd (entry_corner (inv_step s (q + 1) div 4)) * p)"
      using s2 p by (rule cell_first)
    finally have c1: "cell inv_step n (inv_step s (q + 1) div 4) (h + 1) =
        (fst (entry_corner (inv_step s (q + 1) div 4)) * p, snd (entry_corner (inv_step s (q + 1) div 4)) * p)" .
    show ?thesis
      unfolding cell_Suc Let_def dh dh1 c0 c1 fst_conv snd_conv p [symmetric]
      using Suc.prems(1) q3 by (rule junction) simp
  qed
qed

section \<open>Bounds and round trips\<close>

lemma unat_take_bit: "unat (take_bit k w) = unat w mod 2 ^ k"
  by (simp only: unsigned_take_bit_eq) (simp add: take_bit_eq_mod)

lemma take_bit_unat_less: "unat w < 2 ^ k \<Longrightarrow> take_bit k w = w"
  by (simp add: word_unat_eq_iff unat_take_bit)

lemma bit_below: "unat w < 2 ^ k \<Longrightarrow> bit w n \<Longrightarrow> n < k"
proof -
  assume "unat w < 2 ^ k" "bit w n"
  then have "bit (take_bit k w) n"
    by (simp add: take_bit_unat_less)
  then show "n < k"
    by (simp add: bit_take_bit_iff)
qed

lemma unat_less_bits:
  assumes "\<And>n. bit w n \<Longrightarrow> n < k"
  shows "unat w < 2 ^ k"
proof -
  have "take_bit k w = w"
    using assms by (intro bit_eqI) (auto simp add: bit_take_bit_iff)
  then have "unat w = unat w mod 2 ^ k"
    using unat_take_bit [of k w] by simp
  also have "\<dots> < 2 ^ k" by simp
  finally show ?thesis .
qed

lemma word_of_nat_mod: "word_of_nat (unat w mod 2 ^ k) = take_bit k w"
proof -
  have "unat w mod 2 ^ k \<le> unat w" by simp
  also have "unat w < 2 ^ LENGTH('a)" by simp
  finally have "unat (word_of_nat (unat w mod 2 ^ k) :: 'a::len word) = unat w mod 2 ^ k"
    by (simp add: unat_of_nat)
  then show ?thesis
    by (simp add: word_unat_eq_iff unat_take_bit)
qed

lemma mortonIndex_bound:
  assumes "unat x < 2 ^ n" "unat y < 2 ^ n"
  shows "unat (mortonIndex x y) < 4 ^ n"
proof -
  have "k < 2 * n" if "bit (mortonIndex x y) k" for k
  proof (cases "even k")
    case True
    with that have "k div 2 < n"
      using bit_below [OF assms(1)] by (simp add: bit_mortonIndex)
    with True show ?thesis by (auto elim!: evenE)
  next
    case False
    with that have "k div 2 < n"
      using bit_below [OF assms(2)] by (simp add: bit_mortonIndex)
    with False show ?thesis by (auto elim!: oddE)
  qed
  then have "unat (mortonIndex x y) < 2 ^ (2 * n)"
    by (rule unat_less_bits)
  then show ?thesis by (simp add: pow2_2)
qed

lemma mortonIndexInverse_bound:
  assumes "unat z < 4 ^ n"
  shows "unat (fst (mortonIndexInverse z)) < 2 ^ n" "unat (snd (mortonIndexInverse z)) < 2 ^ n"
proof -
  have z: "unat z < 2 ^ (2 * n)"
    using assms by (simp add: pow2_2)
  show "unat (fst (mortonIndexInverse z)) < 2 ^ n"
  proof (rule unat_less_bits)
    fix k
    assume "bit (fst (mortonIndexInverse z)) k"
    then have "bit z (2 * k)" by (simp add: bit_mortonIndexInverse)
    with z have "2 * k < 2 * n" by (rule bit_below)
    then show "k < n" by simp
  qed
  show "unat (snd (mortonIndexInverse z)) < 2 ^ n"
  proof (rule unat_less_bits)
    fix k
    assume "bit (snd (mortonIndexInverse z)) k"
    then have "bit z (2 * k + 1)" by (simp add: bit_mortonIndexInverse)
    with z have "2 * k + 1 < 2 * n" by (rule bit_below)
    then show "k < n" by simp
  qed
qed

lemma mortonIndex_take_bit:
  "mortonIndex (take_bit n x) (take_bit n y) = take_bit (2 * n) (mortonIndex x y)"
proof (rule bit_eqI)
  fix k
  show "bit (mortonIndex (take_bit n x) (take_bit n y)) k = bit (take_bit (2 * n) (mortonIndex x y)) k"
  proof (cases "even k")
    case True
    then have "(k div 2 < n) = (k < 2 * n)" by (auto elim!: evenE)
    with True show ?thesis by (simp add: bit_mortonIndex bit_take_bit_iff)
  next
    case False
    then have "(k div 2 < n) = (k < 2 * n)" by (auto elim!: oddE)
    with False show ?thesis by (simp add: bit_mortonIndex bit_take_bit_iff)
  qed
qed

lemma mortonToHilbert_bound:
  "0 \<le> m \<Longrightarrow> m \<le> 32 \<Longrightarrow> unat (mortonToHilbert z m) < 4 ^ nat m"
  by (simp add: mortonToHilbert_run run_bound)

lemma hilbertToMorton_bound:
  "0 \<le> m \<Longrightarrow> m \<le> 32 \<Longrightarrow> unat (hilbertToMorton h m) < 4 ^ nat m"
  by (simp add: hilbertToMorton_run run_bound)

lemma mortonToHilbert_take_bit:
  assumes "0 \<le> m" "m \<le> 32"
  shows "mortonToHilbert (take_bit (2 * nat m) z) m = mortonToHilbert z m"
  using assms run_mod [of fwd_step "nat m" 0 "unat z"]
  by (simp add: word_unat_eq_iff mortonToHilbert_run unat_take_bit pow2_2)

lemma hilbertToMorton_take_bit:
  assumes "0 \<le> m" "m \<le> 32"
  shows "hilbertToMorton (take_bit (2 * nat m) h) m = hilbertToMorton h m"
  using assms run_mod [of inv_step "nat m" 0 "unat h"]
  by (simp add: word_unat_eq_iff hilbertToMorton_run unat_take_bit pow2_2)

lemma hilbertToMorton_mortonToHilbert:
  assumes "0 \<le> m" "m \<le> 32"
  shows "hilbertToMorton (mortonToHilbert z m) m = take_bit (2 * nat m) z"
  using assms run_inverse [OF inverse_tables_fwd, of 0 "nat m" "unat z"]
  by (simp add: word_unat_eq_iff mortonToHilbert_run hilbertToMorton_run unat_take_bit pow2_2)

lemma mortonToHilbert_hilbertToMorton:
  assumes "0 \<le> m" "m \<le> 32"
  shows "mortonToHilbert (hilbertToMorton h m) m = take_bit (2 * nat m) h"
  using assms run_inverse [OF inverse_tables_inv, of 0 "nat m" "unat h"]
  by (simp add: word_unat_eq_iff mortonToHilbert_run hilbertToMorton_run unat_take_bit pow2_2)

lemma hilbert_round_trip:
  assumes "0 \<le> m" "m \<le> 32" "unat x < 2 ^ nat m" "unat y < 2 ^ nat m"
  shows "hilbertIndexInverse (hilbertIndex x y m) m = (x, y)"
proof -
  have "unat (mortonIndex x y) < 2 ^ (2 * nat m)"
    using mortonIndex_bound [OF assms(3,4)] by (simp add: pow2_2)
  then have "take_bit (2 * nat m) (mortonIndex x y) = mortonIndex x y"
    by (rule take_bit_unat_less)
  then show ?thesis
    unfolding hilbertIndexInverse_def hilbertIndex_def
    by (simp add: hilbertToMorton_mortonToHilbert [OF assms(1,2)] mortonIndexInverse_mortonIndex)
qed

lemma hilbert_inverse_in_grid:
  assumes "0 \<le> m" "m \<le> 32"
  shows "unat (fst (hilbertIndexInverse h m)) < 2 ^ nat m"
    and "unat (snd (hilbertIndexInverse h m)) < 2 ^ nat m"
  unfolding hilbertIndexInverse_def
  using mortonIndexInverse_bound [OF hilbertToMorton_bound [OF assms]] by simp_all

lemma hilbert_round_trip_inverse:
  assumes "0 \<le> m" "m \<le> 32" "unat h < 4 ^ nat m"
  shows "hilbertIndex (fst (hilbertIndexInverse h m)) (snd (hilbertIndexInverse h m)) m = h"
proof -
  have "unat h < 2 ^ (2 * nat m)"
    using assms(3) by (simp add: pow2_2)
  then have "take_bit (2 * nat m) h = h"
    by (rule take_bit_unat_less)
  then show ?thesis
    unfolding hilbertIndexInverse_def hilbertIndex_def mortonIndex_mortonIndexInverse
    by (simp add: mortonToHilbert_hilbertToMorton [OF assms(1,2)])
qed

section \<open>Coordinates of a Morton index\<close>

lemma nat_bit_below: "z < 2 ^ j \<Longrightarrow> bit z i \<Longrightarrow> i < j" for z :: nat
proof -
  assume "z < 2 ^ j" "bit z i"
  then have "bit (take_bit j z) i"
    by (simp add: take_bit_nat_eq_self)
  then show "i < j"
    by (simp add: bit_take_bit_iff)
qed

lemma bit_top_digit:
  fixes b r :: nat
  assumes "b \<le> 1" "r < 2 ^ n"
  shows "bit (b * 2 ^ n + r) k = (k = n \<and> b = 1 \<or> bit r k)"
proof -
  have "b * 2 ^ n + r = b * 2 ^ n OR r"
    using nat_or_disjoint [OF assms(2), of b] by simp
  moreover have "bit (b * 2 ^ n) k = (k = n \<and> b = 1)"
  proof (cases "b = 0")
    case True
    then show ?thesis by simp
  next
    case False
    with assms(1) have "b = 1" by simp
    then show ?thesis by (auto simp add: bit_exp_iff)
  qed
  ultimately show ?thesis
    by (simp add: bit_or_iff)
qed

lemma digit_low_bit: "(((z div 4 ^ n) mod 4) mod 2 = 1) = bit z (2 * n)" for z :: nat
proof -
  have "((z div 4 ^ n) mod 4) mod 2 = (z div 2 ^ (2 * n)) mod 2"
    by (simp add: mod_mod_cancel pow2_2)
  then show ?thesis
    by (simp add: bit_iff_odd odd_iff_mod_2_eq_one)
qed

lemma digit_high_bit: "(((z div 4 ^ n) mod 4) div 2 = 1) = bit z (2 * n + 1)" for z :: nat
proof -
  have "((z div 4 ^ n) mod 4) div 2 = ((z div 4 ^ n) div 2) mod 2"
    using half_nibble(2) [of "z div 4 ^ n"] by simp
  also have "(z div 4 ^ n) div 2 = z div (4 ^ n * 2)"
    by (rule div_mult2_eq [symmetric])
  also have "(4::nat) ^ n * 2 = 2 ^ (2 * n + 1)"
    by (simp add: pow2_2)
  finally show ?thesis
    by (simp add: bit_iff_odd odd_iff_mod_2_eq_one)
qed

lemma bit_evens: "bit (evens n z) k = (k < n \<and> bit z (2 * k))"
proof (induction n)
  case 0
  show ?case by simp
next
  case (Suc n)
  have "bit (evens (Suc n) z) k =
      (k = n \<and> ((z div 4 ^ n) mod 4) mod 2 = 1 \<or> bit (evens n z) k)"
    unfolding evens.simps by (rule bit_top_digit) (simp_all add: evens_bound)
  then show ?case
    unfolding Suc.IH digit_low_bit by (auto simp add: less_Suc_eq)
qed

lemma bit_odds: "bit (odds n z) k = (k < n \<and> bit z (2 * k + 1))"
proof (induction n)
  case 0
  show ?case by simp
next
  case (Suc n)
  have "bit (odds (Suc n) z) k =
      (k = n \<and> ((z div 4 ^ n) mod 4) div 2 = 1 \<or> bit (odds n z) k)"
    unfolding odds.simps by (rule bit_top_digit) (simp_all add: odds_bound)
  then show ?case
    unfolding Suc.IH digit_high_bit by (auto simp add: less_Suc_eq)
qed

lemma mortonIndexInverse_evens_odds:
  assumes "unat z < 4 ^ n" "n \<le> 32"
  shows "unat (fst (mortonIndexInverse z)) = evens n (unat z)"
    and "unat (snd (mortonIndexInverse z)) = odds n (unat z)"
proof -
  have z: "unat z < 2 ^ (2 * n)"
    using assms(1) by (simp add: pow2_2)
  have low: "i < 2 * n" if "bit z i" for i
    using z that by (rule bit_below)
  show "unat (fst (mortonIndexInverse z)) = evens n (unat z)"
  proof (rule bit_eqI)
    fix k
    show "bit (unat (fst (mortonIndexInverse z))) k = bit (evens n (unat z)) k"
      using low [of "2 * k"] assms(2)
      by (auto simp add: bit_unsigned_iff bit_mortonIndexInverse bit_evens)
  qed
  show "unat (snd (mortonIndexInverse z)) = odds n (unat z)"
  proof (rule bit_eqI)
    fix k
    show "bit (unat (snd (mortonIndexInverse z))) k = bit (odds n (unat z)) k"
      using low [of "2 * k + 1"] assms(2)
      by (auto simp add: bit_unsigned_iff bit_mortonIndexInverse bit_odds)
  qed
qed

lemma hilbertIndexInverse_cell:
  assumes "0 \<le> m" "m \<le> 32"
  shows "(unat (fst (hilbertIndexInverse h m)), unat (snd (hilbertIndexInverse h m))) =
     cell inv_step (nat m) 0 (unat h)"
proof -
  have "nat m \<le> 32" using assms by simp
  with hilbertToMorton_bound [OF assms, of h] show ?thesis
    unfolding hilbertIndexInverse_def cell_def
    by (simp add: mortonIndexInverse_evens_odds hilbertToMorton_run [OF assms])
qed

section \<open>The Hilbert curve: bijection, locality, low bits\<close>

text \<open>
  C1. For \<open>m\<close> in 0..32, \<open>hilbertIndex\<close> maps the grid of pairs below \<open>2 ^ m\<close>
  one-to-one onto the indexes below \<open>4 ^ m\<close>, and \<open>hilbertIndexInverse\<close> undoes it on
  the grid.
\<close>

theorem hilbertIndex_bijection:
  assumes "0 \<le> m" "m \<le> 32"
  shows "bij_betw (\<lambda>(x, y). hilbertIndex x y m)
           {(x, y). unat x < 2 ^ nat m \<and> unat y < 2 ^ nat m} {h. unat h < 4 ^ nat m}
       \<and> (\<forall>x y. unat x < 2 ^ nat m \<and> unat y < 2 ^ nat m \<longrightarrow>
             hilbertIndexInverse (hilbertIndex x y m) m = (x, y))"
proof
  show "bij_betw (\<lambda>(x, y). hilbertIndex x y m)
           {(x, y). unat x < 2 ^ nat m \<and> unat y < 2 ^ nat m} {h. unat h < 4 ^ nat m}"
  proof (rule bij_betw_byWitness [where f' = "\<lambda>h. hilbertIndexInverse h m"])
    show "\<forall>a\<in>{(x, y). unat x < 2 ^ nat m \<and> unat y < 2 ^ nat m}.
        hilbertIndexInverse (case a of (x, y) \<Rightarrow> hilbertIndex x y m) m = a"
      using hilbert_round_trip [OF assms] by auto
    show "\<forall>a'\<in>{h. unat h < 4 ^ nat m}.
        (case hilbertIndexInverse a' m of (x, y) \<Rightarrow> hilbertIndex x y m) = a'"
      using hilbert_round_trip_inverse [OF assms] by (auto simp add: case_prod_beta)
    show "(\<lambda>(x, y). hilbertIndex x y m) ` {(x, y). unat x < 2 ^ nat m \<and> unat y < 2 ^ nat m}
        \<subseteq> {h. unat h < 4 ^ nat m}"
      using mortonToHilbert_bound [OF assms] by (auto simp add: hilbertIndex_def)
    show "(\<lambda>h. hilbertIndexInverse h m) ` {h. unat h < 4 ^ nat m}
        \<subseteq> {(x, y). unat x < 2 ^ nat m \<and> unat y < 2 ^ nat m}"
    proof
      fix c
      assume "c \<in> (\<lambda>h. hilbertIndexInverse h m) ` {h. unat h < 4 ^ nat m}"
      then obtain h where "c = hilbertIndexInverse h m" by blast
      then show "c \<in> {(x, y). unat x < 2 ^ nat m \<and> unat y < 2 ^ nat m}"
        using hilbert_inverse_in_grid [OF assms, of h] by (cases "hilbertIndexInverse h m") auto
    qed
  qed
  show "\<forall>x y. unat x < 2 ^ nat m \<and> unat y < 2 ^ nat m \<longrightarrow>
      hilbertIndexInverse (hilbertIndex x y m) m = (x, y)"
    using hilbert_round_trip [OF assms] by blast
qed

theorem hilbertIndex_bijection_witness:
  "(0::int) \<le> 2 \<and> (2::int) \<le> 32
   \<and> bij_betw (\<lambda>(x, y). hilbertIndex x y 2)
        {(x, y). unat x < 2 ^ nat 2 \<and> unat y < 2 ^ nat 2} {h. unat h < 4 ^ nat 2}
   \<and> unat (3::u32) < 2 ^ nat 2 \<and> unat (1::u32) < 2 ^ nat 2
   \<and> hilbertIndexInverse (hilbertIndex 3 1 2) 2 = (3, 1)"
proof -
  have m: "(0::int) \<le> 2" "(2::int) \<le> 32" by simp_all
  have g: "unat (3::u32) < 2 ^ nat 2 \<and> unat (1::u32) < 2 ^ nat 2" by simp
  note t = hilbertIndex_bijection [OF m]
  from t g have "hilbertIndexInverse (hilbertIndex 3 1 2) 2 = (3, 1)" by blast
  with t m g show ?thesis by blast
qed

text \<open>
  C3. For \<open>m\<close> in 1..32 and every index \<open>h\<close> with \<open>h + 1\<close> still below \<open>4 ^ m\<close>, the
  cells of \<open>h\<close> and \<open>h + 1\<close> agree in one coordinate and differ by exactly one in the
  other.
\<close>

theorem hilbert_locality:
  assumes "1 \<le> m" "m \<le> 32" "unat h + 2 \<le> 4 ^ nat m"
  shows "case (hilbertIndexInverse h m, hilbertIndexInverse (h + 1) m) of
           ((x1, y1), (x2, y2)) \<Rightarrow>
             (x1 = x2 \<and> (unat y1 + 1 = unat y2 \<or> unat y2 + 1 = unat y1)) \<or>
             (y1 = y2 \<and> (unat x1 + 1 = unat x2 \<or> unat x2 + 1 = unat x1))"
proof -
  have m: "0 \<le> m" using assms(1) by simp
  have "(4::nat) ^ nat m \<le> 4 ^ 32"
    using assms(2) by (intro power_increasing) simp_all
  with assms(3) have "unat h + unat (1::u64) < 2 ^ LENGTH(64)"
    by simp
  then have "unat (h + 1) = unat h + unat (1::u64)"
    by (simp only: unat_add_lem)
  then have h1: "unat (h + 1) = unat h + 1"
    by simp
  have "adjacent (cell inv_step (nat m) 0 (unat h)) (cell inv_step (nat m) 0 (unat h + 1))"
    using assms(3) by (intro cell_locality) simp_all
  then have "adjacent
      (unat (fst (hilbertIndexInverse h m)), unat (snd (hilbertIndexInverse h m)))
      (unat (fst (hilbertIndexInverse (h + 1) m)), unat (snd (hilbertIndexInverse (h + 1) m)))"
    unfolding hilbertIndexInverse_cell [OF m assms(2)] h1 .
  then show ?thesis
    unfolding adjacent_def by (simp add: case_prod_beta word_unat_eq_iff)
qed

theorem hilbert_locality_witness:
  "(1::int) \<le> 2 \<and> (2::int) \<le> 32 \<and> unat (7::u64) + 2 \<le> 4 ^ nat 2
   \<and> (case (hilbertIndexInverse 7 2, hilbertIndexInverse (7 + 1) 2) of
           ((x1, y1), (x2, y2)) \<Rightarrow>
             (x1 = x2 \<and> (unat y1 + 1 = unat y2 \<or> unat y2 + 1 = unat y1)) \<or>
             (y1 = y2 \<and> (unat x1 + 1 = unat x2 \<or> unat x2 + 1 = unat x1)))"
proof -
  have a: "(1::int) \<le> 2" "(2::int) \<le> 32" "unat (7::u64) + 2 \<le> 4 ^ nat 2" by simp_all
  from a hilbert_locality [OF a] show ?thesis by blast
qed

text \<open>
  C10. For \<open>m\<close> in 0..32, \<open>hilbertIndex\<close> reads only the \<open>m\<close> low bits of \<open>x\<close> and
  \<open>y\<close>, and \<open>hilbertIndexInverse\<close> only the \<open>2 * m\<close> low bits of \<open>h\<close>; for
  \<open>m = 0\<close> the results are 0 and (0, 0).
\<close>

theorem hilbert_low_bits_only:
  assumes "0 \<le> m" "m \<le> 32"
  shows "hilbertIndex x y m =
           hilbertIndex (word_of_nat (unat x mod 2 ^ nat m)) (word_of_nat (unat y mod 2 ^ nat m)) m
       \<and> hilbertIndexInverse h m = hilbertIndexInverse (word_of_nat (unat h mod 4 ^ nat m)) m
       \<and> hilbertIndex x y 0 = 0 \<and> hilbertIndexInverse h 0 = (0, 0)"
proof (intro conjI)
  show "hilbertIndex x y m =
      hilbertIndex (word_of_nat (unat x mod 2 ^ nat m)) (word_of_nat (unat y mod 2 ^ nat m)) m"
    unfolding word_of_nat_mod hilbertIndex_def mortonIndex_take_bit
    by (rule mortonToHilbert_take_bit [OF assms, symmetric])
  have "word_of_nat (unat h mod 4 ^ nat m) = take_bit (2 * nat m) h"
    using word_of_nat_mod [of h "2 * nat m"] by (simp add: pow2_2)
  then show "hilbertIndexInverse h m = hilbertIndexInverse (word_of_nat (unat h mod 4 ^ nat m)) m"
    unfolding hilbertIndexInverse_def by (simp add: hilbertToMorton_take_bit [OF assms])
  have "unat (mortonToHilbert (mortonIndex x y) 0) < 4 ^ nat 0"
    by (rule mortonToHilbert_bound) simp_all
  then show "hilbertIndex x y 0 = 0"
    unfolding hilbertIndex_def by (simp add: unat_eq_0)
  have "unat (hilbertToMorton h 0) < 4 ^ nat 0"
    by (rule hilbertToMorton_bound) simp_all
  then have "hilbertToMorton h 0 = 0"
    by (simp add: unat_eq_0)
  then show "hilbertIndexInverse h 0 = (0, 0)"
    unfolding hilbertIndexInverse_def by (simp add: mortonIndexInverse_def)
qed

theorem hilbert_low_bits_only_witness:
  "(0::int) \<le> 1 \<and> (1::int) \<le> 32
   \<and> hilbertIndex 7 2 1 = hilbertIndex 1 0 1
   \<and> hilbertIndexInverse 30 1 = hilbertIndexInverse 2 1
   \<and> hilbertIndex 7 2 0 = 0 \<and> hilbertIndexInverse 30 0 = (0, 0)"
  using hilbert_low_bits_only [of 1 7 2 30] by simp

section \<open>ConvexPolygon: serialization and the relate fallback\<close>

lemma bit_byte:
  fixes w :: "'a::len word"
  shows "bit (push_bit j (ucast (ucast (drop_bit j w) :: u8) :: 'a word)) n =
     (j \<le> n \<and> n < j + 8 \<and> bit w n)"
  by (auto simp add: bit_push_bit_iff bit_ucast_iff bit_drop_bit_eq dest: bit_imp_le_length)

lemma bit_byte0:
  fixes w :: "'a::len word"
  shows "bit (ucast (ucast w :: u8) :: 'a word) n = (n < 8 \<and> bit w n)"
  by (auto simp add: bit_ucast_iff dest: bit_imp_le_length)

lemma encodeU32_nth:
  "encodeU32 w ! 0 = ucast w" "encodeU32 w ! 1 = ucast (drop_bit 8 w)"
  "encodeU32 w ! 2 = ucast (drop_bit 16 w)" "encodeU32 w ! 3 = ucast (drop_bit 24 w)"
  by (simp_all add: encodeU32_def)

lemma encodeDouble_nth:
  "encodeDouble w ! 0 = ucast w" "encodeDouble w ! 1 = ucast (drop_bit 8 w)"
  "encodeDouble w ! 2 = ucast (drop_bit 16 w)" "encodeDouble w ! 3 = ucast (drop_bit 24 w)"
  "encodeDouble w ! 4 = ucast (drop_bit 32 w)" "encodeDouble w ! 5 = ucast (drop_bit 40 w)"
  "encodeDouble w ! 6 = ucast (drop_bit 48 w)" "encodeDouble w ! 7 = ucast (drop_bit 56 w)"
  by (simp_all add: encodeDouble_def)

lemma bytes4: "(n::nat) < 32 \<Longrightarrow>
   n < 8 \<or> 8 \<le> n \<and> n < 8 + 8 \<or> 16 \<le> n \<and> n < 16 + 8 \<or> 24 \<le> n \<and> n < 24 + 8"
  by (simp add: not_less [symmetric]) blast

lemma bytes8: "(n::nat) < 64 \<Longrightarrow>
   n < 8 \<or> 8 \<le> n \<and> n < 8 + 8 \<or> 16 \<le> n \<and> n < 16 + 8 \<or> 24 \<le> n \<and> n < 24 + 8 \<or>
   32 \<le> n \<and> n < 32 + 8 \<or> 40 \<le> n \<and> n < 40 + 8 \<or> 48 \<le> n \<and> n < 48 + 8 \<or> 56 \<le> n \<and> n < 56 + 8"
  by (simp add: not_less [symmetric]) blast

lemma decodeU32_encodeU32: "decodeU32 (encodeU32 w) = w"
proof (rule bit_eqI)
  fix n
  have "n < 32" if "bit w n"
    using that by (auto dest: bit_imp_le_length)
  moreover have "bit (decodeU32 (encodeU32 w)) n =
      (n < 8 \<and> bit w n \<or> 8 \<le> n \<and> n < 8 + 8 \<and> bit w n \<or>
       16 \<le> n \<and> n < 16 + 8 \<and> bit w n \<or> 24 \<le> n \<and> n < 24 + 8 \<and> bit w n)"
    unfolding decodeU32_def encodeU32_nth bit_or_iff bit_byte bit_byte0
    by (simp only: disj_assoc)
  ultimately show "bit (decodeU32 (encodeU32 w)) n = bit w n"
    using bytes4 [of n] by (cases "bit w n") simp_all
qed

lemma decodeDouble_encodeDouble: "decodeDouble (encodeDouble w) = w"
proof (rule bit_eqI)
  fix n
  have "n < 64" if "bit w n"
    using that by (auto dest: bit_imp_le_length)
  moreover have "bit (decodeDouble (encodeDouble w)) n =
      (n < 8 \<and> bit w n \<or> 8 \<le> n \<and> n < 8 + 8 \<and> bit w n \<or>
       16 \<le> n \<and> n < 16 + 8 \<and> bit w n \<or> 24 \<le> n \<and> n < 24 + 8 \<and> bit w n \<or>
       32 \<le> n \<and> n < 32 + 8 \<and> bit w n \<or> 40 \<le> n \<and> n < 40 + 8 \<and> bit w n \<or>
       48 \<le> n \<and> n < 48 + 8 \<and> bit w n \<or> 56 \<le> n \<and> n < 56 + 8 \<and> bit w n)"
    unfolding decodeDouble_def encodeDouble_nth bit_or_iff bit_byte bit_byte0
    by (simp only: disj_assoc)
  ultimately show "bit (decodeDouble (encodeDouble w)) n = bit w n"
    using bytes8 [of n] by (cases "bit w n") simp_all
qed

lemma length_encodeU32 [simp]: "length (encodeU32 w) = 4"
  by (simp add: encodeU32_def)

lemma length_encodeDouble [simp]: "length (encodeDouble w) = 8"
  by (simp add: encodeDouble_def)

lemma length_encodeVertex [simp]: "length (encodeVertex v) = 24"
  by (simp add: encodeVertex_def)

lemma decodeVertex_encodeVertex: "decodeVertex (encodeVertex v @ rest) = v"
  by (simp add: decodeVertex_def encodeVertex_def decodeDouble_encodeDouble)

lemma length_concat_vertices: "length (concat (map encodeVertex vs)) = 24 * length vs"
  by (induction vs) simp_all

lemma decodeVertices_encode:
  "decodeVertices (length vs) (concat (map encodeVertex vs)) = vs"
proof (induction vs)
  case Nil
  show ?case by simp
next
  case (Cons v vs)
  have "take 24 (encodeVertex v @ concat (map encodeVertex vs)) = encodeVertex v @ []"
    by simp
  then show ?case
    using decodeVertex_encodeVertex [of v "[]"] Cons.IH by simp
qed

lemma length_encode: "length (encode p) = 5 + 24 * length (vertices p)"
  by (simp add: encode_def length_concat_vertices)

lemma encode_parts:
  "encode p ! 0 = TYPE_CODE"
  "take 4 (drop 1 (encode p)) = encodeU32 (of_nat (length (vertices p)))"
  "drop 5 (encode p) = concat (map encodeVertex (vertices p))"
  by (simp_all add: encode_def)

lemma decode_encode_count:
  "decode (encode p) =
     (if length (vertices p) = unat (of_nat (length (vertices p)) :: u32)
      then Inr p else Inl DecodeError)"
proof -
  have "decode (encode p) =
     (if length (vertices p) = unat (of_nat (length (vertices p)) :: u32)
      then Inr \<lparr>vertices = decodeVertices (length (vertices p)) (concat (map encodeVertex (vertices p)))\<rparr>
      else Inl DecodeError)"
    unfolding decode_def Let_def encode_parts decodeU32_encodeU32 length_encode by auto
  then show ?thesis
    by (simp add: decodeVertices_encode)
qed

lemma decode_bad_type_code: "b \<noteq> TYPE_CODE \<Longrightarrow> decode (b # s) = Inl DecodeError"
  by (simp add: decode_def)

lemma decode_truncated:
  assumes "length (vertices p) < 2 ^ 32" "k < length (encode p)"
  shows "decode (take k (encode p)) = Inl DecodeError"
proof (cases "k < 5")
  case True
  then have "length (take k (encode p)) < 5" by simp
  then show ?thesis by (simp only: decode_def if_True)
next
  case False
  then have "take 4 (drop 1 (take k (encode p))) = take 4 (drop 1 (encode p))"
    by (simp add: drop_take min_def)
  also have "\<dots> = encodeU32 (of_nat (length (vertices p)))"
    by (rule encode_parts(2))
  finally have n: "unat (decodeU32 (take 4 (drop 1 (take k (encode p))))) = length (vertices p)"
    using assms(1) by (simp add: decodeU32_encodeU32 unat_of_nat)
  have "length (take k (encode p)) \<noteq> 5 + 24 * length (vertices p)"
    using assms(2) by (simp add: length_encode)
  then show ?thesis
    unfolding decode_def Let_def n by simp
qed

lemma decode_bad_count:
  "5 \<le> length s \<Longrightarrow> length s \<noteq> 5 + 24 * unat (decodeU32 (take 4 (drop 1 s))) \<Longrightarrow>
     decode s = Inl DecodeError"
  by (simp add: decode_def Let_def)

lemma invert_invert: "invert (invert r) = r"
  by (cases r) simp_all

text \<open>
  C5. A polygon with at least 3 vertices, and few enough for the 4-byte count of the
  format, decodes from its encoding to itself, every coordinate with the same bit
  pattern. Its encoding with another leading byte, every proper prefix of its encoding,
  and every buffer of 5 or more bytes whose count disagrees with its length, give
  \<open>DecodeError\<close> and no polygon.
\<close>

theorem decode_encode_round_trip:
  assumes "3 \<le> length (vertices p)" "length (vertices p) < 2 ^ 32"
  shows "decode (encode p) = Inr p
       \<and> (\<forall>b. b \<noteq> TYPE_CODE \<longrightarrow> decode (b # tl (encode p)) = Inl DecodeError)
       \<and> (\<forall>k < length (encode p). decode (take k (encode p)) = Inl DecodeError)
       \<and> (\<forall>s. 5 \<le> length s \<and> length s \<noteq> 5 + 24 * unat (decodeU32 (take 4 (drop 1 s))) \<longrightarrow>
             decode s = Inl DecodeError)"
proof (intro conjI allI impI)
  have "unat (of_nat (length (vertices p)) :: u32) = length (vertices p)"
    using assms(2) by (simp add: unat_of_nat)
  then show "decode (encode p) = Inr p"
    by (simp add: decode_encode_count)
next
  fix b :: u8
  assume "b \<noteq> TYPE_CODE"
  then show "decode (b # tl (encode p)) = Inl DecodeError"
    by (rule decode_bad_type_code)
next
  fix k
  assume "k < length (encode p)"
  with assms(2) show "decode (take k (encode p)) = Inl DecodeError"
    by (rule decode_truncated)
next
  fix s
  assume "5 \<le> length s \<and> length s \<noteq> 5 + 24 * unat (decodeU32 (take 4 (drop 1 s)))"
  then show "decode s = Inl DecodeError"
    using decode_bad_count by blast
qed

theorem decode_encode_round_trip_witness:
  "3 \<le> length (vertices \<lparr>vertices =
       [UnitVector3d 0x3FF0000000000000 0 0, UnitVector3d 0 0x3FF0000000000000 0,
        UnitVector3d 0 0 0x3FF0000000000000]\<rparr>)
   \<and> length (vertices \<lparr>vertices =
       [UnitVector3d 0x3FF0000000000000 0 0, UnitVector3d 0 0x3FF0000000000000 0,
        UnitVector3d 0 0 0x3FF0000000000000]\<rparr>) < 2 ^ 32
   \<and> decode (encode \<lparr>vertices =
       [UnitVector3d 0x3FF0000000000000 0 0, UnitVector3d 0 0x3FF0000000000000 0,
        UnitVector3d 0 0 0x3FF0000000000000]\<rparr>) =
     Inr \<lparr>vertices =
       [UnitVector3d 0x3FF0000000000000 0 0, UnitVector3d 0 0x3FF0000000000000 0,
        UnitVector3d 0 0 0x3FF0000000000000]\<rparr>
   \<and> decode (0x71 # tl (encode \<lparr>vertices =
       [UnitVector3d 0x3FF0000000000000 0 0, UnitVector3d 0 0x3FF0000000000000 0,
        UnitVector3d 0 0 0x3FF0000000000000]\<rparr>)) = Inl DecodeError
   \<and> decode (take 76 (encode \<lparr>vertices =
       [UnitVector3d 0x3FF0000000000000 0 0, UnitVector3d 0 0x3FF0000000000000 0,
        UnitVector3d 0 0 0x3FF0000000000000]\<rparr>)) = Inl DecodeError"
proof -
  define p where "p = \<lparr>vertices =
       [UnitVector3d 0x3FF0000000000000 0 0, UnitVector3d 0 0x3FF0000000000000 0,
        UnitVector3d 0 0 0x3FF0000000000000]\<rparr>"
  have a: "3 \<le> length (vertices p)" "length (vertices p) < 2 ^ 32"
    by (simp_all add: p_def)
  have b: "(0x71 :: u8) \<noteq> TYPE_CODE"
    by (simp add: TYPE_CODE_def)
  have c: "76 < length (encode p)"
    by (simp add: length_encode p_def)
  from a b c decode_encode_round_trip [OF a] show ?thesis
    unfolding p_def by blast
qed

text \<open>
  C9. The fallback overload of \<open>ConvexPolygon\<close> answers with the inverted answer of the
  other region, so inverting its answer gives the other region's answer back; \<open>invert\<close>
  keeps \<open>DISJOINT\<close> and \<open>INTERSECTS\<close> and swaps \<open>CONTAINS\<close> and \<open>WITHIN\<close>.
\<close>

theorem relate_fallback_symmetry:
  "relate_Region p r = invert (relate_ConvexPolygon r p)
   \<and> invert (relate_Region p r) = relate_ConvexPolygon r p
   \<and> invert DISJOINT = DISJOINT \<and> invert INTERSECTS = INTERSECTS
   \<and> invert CONTAINS = WITHIN \<and> invert WITHIN = CONTAINS"
  by (simp add: relate_Region_def invert_invert)

end
